theory Spec2Isabelle
  imports Main
begin

section \<open>Data model of the node editor\<close>

text \<open>
  The embedding follows \<^verbatim>\<open>src/NodeEditor.cpp\<close>. The header \<^verbatim>\<open>NodeEditor.hpp\<close> and the
  node classes under \<^verbatim>\<open>nodes/\<close> are not part of the sources at hand, so the shape of
  \<^verbatim>\<open>Pin\<close>, \<^verbatim>\<open>BaseNode\<close> and \<^verbatim>\<open>Connection\<close> is read off the member accesses in the
  \<^verbatim>\<open>.cpp\<close> file.

  \<^item> Identifiers are C++ \<^verbatim>\<open>int\<close>s (32 bits) drawn from the counter \<^verbatim>\<open>currentId\<close>. They are
    modelled as integers; the only arithmetic on them is \<^verbatim>\<open>currentId++\<close>, which is modelled
    with the two's-complement wrap-around of the machine (\<open>intWrap\<close>): after
    \<open>2147483647\<close> comes \<open>-2147483648\<close>. (The language standard leaves the overflow of a
    signed \<^verbatim>\<open>int\<close> undefined; the model takes what the increment instruction does.)
  \<^item> A pixel buffer (\<^verbatim>\<open>cv::Mat\<close>) is modelled here by its contents, a list of samples;
    \<^verbatim>\<open>empty()\<close> is the empty list and \<^verbatim>\<open>release()\<close> yields it. The only buffer
    operations of \<^verbatim>\<open>NodeEditor.cpp\<close> are \<^verbatim>\<open>release\<close>, \<^verbatim>\<open>empty\<close> and assignment of a
    \<^verbatim>\<open>clone()\<close>. Buffer identity (who shares storage with whom) is treated separately in
    the section on buffer hand-off, with an explicit store.
  \<^item> A node is referred to by its position in \<^verbatim>\<open>nodes\<close>: the vector holds owning pointers,
    so during one evaluation pass a \<^verbatim>\<open>BaseNode*\<close> and a position denote the same node.
\<close>

type_synonym Mat = "nat list"

record Pin =
  pin_id :: int
  pin_name :: string
  data :: Mat
  connected :: bool

text \<open>The field \<open>vstate\<close> stands for the members a derived node class adds (its parameters).\<close>

record 's BaseNode =
  node_id :: int
  node_name :: string
  inputs :: "Pin list"
  outputs :: "Pin list"
  dirty :: bool
  vstate :: 's

record Connection =
  inputNode :: int
  outputNode :: int
  inputPin :: int
  outputPin :: int

text \<open>\<open>selectedNode\<close> is a pointer that this file only ever resets; it is kept as an opaque
  optional value.\<close>

record 's NodeEditor =
  nodes :: "'s BaseNode list"
  connections :: "Connection list"
  currentId :: int
  selectedNode :: "nat option"

text \<open>The ten enumerators that \<^verbatim>\<open>createNode\<close> switches on; \<open>Unrecognized v\<close> is any other
  value of the enumeration type, which falls to the \<^verbatim>\<open>default\<close> branch.\<close>

datatype NodeType =
  ImageInput | Output | BrightnessContrast | ColorChannelSplitter | Blur
  | Threshold | EdgeDetection | Blend | Noise | Convolution | Unrecognized int

section \<open>Lookups\<close>

fun findNodeById :: "'s BaseNode list \<Rightarrow> int \<Rightarrow> nat option" where
  "findNodeById [] nodeId = None"
| "findNodeById (n # ns) nodeId =
     (if node_id n = nodeId then Some 0 else map_option Suc (findNodeById ns nodeId))"

fun findPinIndex :: "Pin list \<Rightarrow> int \<Rightarrow> int" where
  "findPinIndex [] pinId = - 1"
| "findPinIndex (p # ps) pinId =
     (if pin_id p = pinId then 0
      else (let r = findPinIndex ps pinId in if r < 0 then - 1 else r + 1))"


definition isConnectionValid :: "'s BaseNode list \<Rightarrow> Connection \<Rightarrow> bool" where
  "isConnectionValid ns conn \<longleftrightarrow>
     findNodeById ns (inputNode conn) \<noteq> None \<and> findNodeById ns (outputNode conn) \<noteq> None"

section \<open>Adding nodes\<close>

text \<open>The constructors of the node classes are not in the sources: \<open>ctor\<close> supplies, for a
  recognised kind, the node as its constructor leaves it.\<close>

definition createNode :: "(NodeType \<Rightarrow> 's BaseNode) \<Rightarrow> NodeType \<Rightarrow> 's BaseNode option" where
  "createNode ctor T =
     (case T of Unrecognized v \<Rightarrow> None | _ \<Rightarrow> Some (ctor T))"

text \<open>The value of a C++ \<^verbatim>\<open>int\<close> that an arithmetic result \<open>x\<close> leaves in a 32-bit register.\<close>

definition intWrap :: "int \<Rightarrow> int" where
  "intWrap x = (x + 2147483648) mod 4294967296 - 2147483648"

text \<open>The two loops \<^verbatim>\<open>pin.id = currentId++\<close>: the pins renumbered, and the counter after.\<close>

fun assignIds :: "int \<Rightarrow> Pin list \<Rightarrow> Pin list \<times> int" where
  "assignIds c [] = ([], c)"
| "assignIds c (p # ps) =
     (let (ps', c') = assignIds (intWrap (c + 1)) ps in (p\<lparr>pin_id := c\<rparr> # ps', c'))"

definition addNode :: "(NodeType \<Rightarrow> 's BaseNode) \<Rightarrow> NodeType \<Rightarrow> 's NodeEditor \<Rightarrow> 's NodeEditor" where
  "addNode ctor T g =
     (case createNode ctor T of
        None \<Rightarrow> g
      | Some node \<Rightarrow>
          (let c0 = currentId g;
               (ins, c1) = assignIds (intWrap (c0 + 1)) (inputs node);
               (outs, c2) = assignIds c1 (outputs node)
           in g\<lparr>nodes := nodes g @ [node\<lparr>node_id := c0, inputs := ins, outputs := outs\<rparr>],
                 currentId := c2\<rparr>))"


section \<open>The evaluation pass\<close>

text \<open>
  Lines 226--236 of \<^verbatim>\<open>processNode\<close>: resolve both pins, and if the upstream buffer is not
  empty, give the input pin a copy of it.
\<close>

definition copyPinData :: "'s BaseNode \<Rightarrow> Connection \<Rightarrow> 's BaseNode \<Rightarrow> 's BaseNode" where
  "copyPinData outN conn n =
     (let outputPinIdx = findPinIndex (outputs outN) (outputPin conn);
          inputPinIdx = findPinIndex (inputs n) (inputPin conn)
      in if outputPinIdx \<ge> 0 \<and> inputPinIdx \<ge> 0 then
           (let srcData = data (outputs outN ! nat outputPinIdx)
            in if srcData \<noteq> [] then
                 n\<lparr>inputs := (inputs n)[nat inputPinIdx :=
                                 (inputs n ! nat inputPinIdx)\<lparr>data := srcData\<rparr>]\<rparr>
               else n)
         else n)"

text \<open>
  The state of a pass: the nodes, and the set \<^verbatim>\<open>processed\<close>. The set is kept as the list
  of its insertions, oldest first: a node is in the set when it occurs in the list. Since
  \<^verbatim>\<open>processed.insert(node)\<close> directly follows \<^verbatim>\<open>node->process()\<close> and nothing else
  inserts, the list is also the sequence of the calls of \<^verbatim>\<open>process()\<close> of the pass.
\<close>

type_synonym 's passState = "'s BaseNode list \<times> nat list"

text \<open>One iteration of the loop over \<^verbatim>\<open>connections\<close> in \<^verbatim>\<open>processNode\<close>; \<open>recur\<close> is the
  recursive call.\<close>

definition depStep ::
  "(nat \<Rightarrow> 's passState \<Rightarrow> 's passState option) \<Rightarrow> nat \<Rightarrow> Connection \<Rightarrow> 's passState
     \<Rightarrow> 's passState option" where
  "depStep recur node conn st =
     (if inputNode conn = node_id (fst st ! node) then
        (case findNodeById (fst st) (outputNode conn) of
           None \<Rightarrow> Some st
         | Some outN \<Rightarrow>
             (case recur outN st of
                None \<Rightarrow> None
              | Some (ns, seen) \<Rightarrow>
                  Some (ns[node := copyPinData (ns ! outN) conn (ns ! node)], seen)))
      else Some st)"

fun forEachConn ::
  "(Connection \<Rightarrow> 's passState \<Rightarrow> 's passState option) \<Rightarrow> Connection list \<Rightarrow> 's passState
     \<Rightarrow> 's passState option" where
  "forEachConn f [] st = Some st"
| "forEachConn f (c # cs) st =
     (case f c st of None \<Rightarrow> None | Some st' \<Rightarrow> forEachConn f cs st')"

text \<open>
  \<^verbatim>\<open>processNode\<close> recurses with no bound of its own. The first argument is the number of
  nested calls still allowed (the call stack left); a call that would exceed it does not
  return, which is the value \<open>None\<close>. \<open>proc\<close> is the virtual \<^verbatim>\<open>process()\<close> of the node
  classes.
\<close>

primrec processNode ::
  "nat \<Rightarrow> ('s BaseNode \<Rightarrow> 's BaseNode) \<Rightarrow> Connection list \<Rightarrow> nat \<Rightarrow> 's passState
     \<Rightarrow> 's passState option" where
  "processNode 0 proc conns node st = None"
| "processNode (Suc depth) proc conns node st =
     (if node \<in> set (snd st) then Some st
      else
        (case forEachConn (depStep (processNode depth proc conns) node) conns st of
           None \<Rightarrow> None
         | Some (ns, seen) \<Rightarrow>
             Some (ns[node := proc (ns ! node)], seen @ [node])))"

text \<open>The loop \<^verbatim>\<open>for (auto& node : nodes) processNode(node.get(), processed)\<close>.\<close>

fun processAll ::
  "nat \<Rightarrow> ('s BaseNode \<Rightarrow> 's BaseNode) \<Rightarrow> Connection list \<Rightarrow> nat list \<Rightarrow> 's passState
     \<Rightarrow> 's passState option" where
  "processAll depth proc conns [] st = Some st"
| "processAll depth proc conns (k # ks) st =
     (case processNode depth proc conns k st of
        None \<Rightarrow> None
      | Some st' \<Rightarrow> processAll depth proc conns ks st')"

definition pruned :: "'s NodeEditor \<Rightarrow> Connection list" where
  "pruned g = filter (isConnectionValid (nodes g)) (connections g)"

definition runPass ::
  "nat \<Rightarrow> ('s BaseNode \<Rightarrow> 's BaseNode) \<Rightarrow> 's NodeEditor \<Rightarrow> 's passState option" where
  "runPass depth proc g =
     processAll depth proc (pruned g) [0..<length (nodes g)] (nodes g, [])"

definition processGraph ::
  "nat \<Rightarrow> ('s BaseNode \<Rightarrow> 's BaseNode) \<Rightarrow> 's NodeEditor \<Rightarrow> 's NodeEditor option" where
  "processGraph depth proc g =
     (case runPass depth proc g of
        None \<Rightarrow> None
      | Some (ns, seen) \<Rightarrow> Some (g\<lparr>nodes := ns, connections := pruned g\<rparr>))"

section \<open>Editing operations\<close>

definition clearInputPin :: "int \<Rightarrow> Pin \<Rightarrow> Pin" where
  "clearInputPin pinId pin =
     (if pin_id pin = pinId then pin\<lparr>data := [], connected := False\<rparr> else pin)"

definition clearOutputPin :: "int \<Rightarrow> Pin \<Rightarrow> Pin" where
  "clearOutputPin pinId pin =
     (if pin_id pin = pinId then pin\<lparr>connected := False\<rparr> else pin)"

definition deleteConnection ::
  "nat \<Rightarrow> ('s BaseNode \<Rightarrow> 's BaseNode) \<Rightarrow> int \<Rightarrow> 's NodeEditor \<Rightarrow> 's NodeEditor option" where
  "deleteConnection depth proc connectionIndex g =
     (if connectionIndex < 0 \<or> connectionIndex \<ge> int (length (connections g)) then Some g
      else
        (let i = nat connectionIndex;
             conn = connections g ! i;
             ns1 = (case findNodeById (nodes g) (inputNode conn) of
                      None \<Rightarrow> nodes g
                    | Some k \<Rightarrow> (nodes g)[k := (nodes g ! k)
                        \<lparr>inputs := map (clearInputPin (inputPin conn)) (inputs (nodes g ! k))\<rparr>]);
             ns2 = (case findNodeById ns1 (outputNode conn) of
                      None \<Rightarrow> ns1
                    | Some k \<Rightarrow> ns1[k := (ns1 ! k)
                        \<lparr>outputs := map (clearOutputPin (outputPin conn)) (outputs (ns1 ! k))\<rparr>])
         in processGraph depth proc
              (g\<lparr>nodes := ns2,
                 connections := take i (connections g) @ drop (Suc i) (connections g)\<rparr>)))"



section \<open>Vocabulary of the properties\<close>

subsection \<open>Identifiers in use\<close>





subsection \<open>What process() may do\<close>

text \<open>The least that the traversal needs of \<^verbatim>\<open>process()\<close>: it does not change the id of its
  node.\<close>

definition preservesId :: "('s BaseNode \<Rightarrow> 's BaseNode) \<Rightarrow> bool" where
  "preservesId proc \<longleftrightarrow> (\<forall>n. node_id (proc n) = node_id n)"

text \<open>What \<^verbatim>\<open>process()\<close> may write, after section 4.3 of the specification and the member
  accesses of \<^verbatim>\<open>NodeEditor.cpp\<close>: the buffers of the node's own output pins and the node's
  internal state (\<open>dirty\<close>, \<open>vstate\<close>); the node's id and name, its input pins, and the
  ids, names and \<open>connected\<close> flags of its output pins stay.\<close>

definition pinShape :: "Pin \<Rightarrow> int \<times> string \<times> bool" where
  "pinShape p = (pin_id p, pin_name p, connected p)"

definition processContract :: "('s BaseNode \<Rightarrow> 's BaseNode) \<Rightarrow> bool" where
  "processContract proc \<longleftrightarrow>
     (\<forall>n. node_id (proc n) = node_id n \<and> node_name (proc n) = node_name n \<and>
          inputs (proc n) = inputs n \<and>
          map pinShape (outputs (proc n)) = map pinShape (outputs n))"

text \<open>\<^verbatim>\<open>process()\<close> is a deterministic function of the input buffers and the parameters: it
  keeps to its contract, leaves the parameters as they are, and the output buffers it
  writes depend only on the parameters and the input buffers (for nodes with the same
  number of output pins).\<close>

definition deterministic :: "('s BaseNode \<Rightarrow> 's BaseNode) \<Rightarrow> bool" where
  "deterministic proc \<longleftrightarrow>
     processContract proc \<and> (\<forall>n. vstate (proc n) = vstate n) \<and>
     (\<forall>n m. vstate n = vstate m \<and> map data (inputs n) = map data (inputs m) \<and>
            length (outputs n) = length (outputs m) \<longrightarrow>
        map data (outputs (proc n)) = map data (outputs (proc m)))"

subsection \<open>Relations kept by a pass\<close>

text \<open>A relation between the state of a node before and after that is kept by every
  write of a pass is kept by the pass.\<close>

definition stepsKeep ::
  "('s BaseNode \<Rightarrow> 's BaseNode \<Rightarrow> bool) \<Rightarrow> ('s BaseNode \<Rightarrow> 's BaseNode) \<Rightarrow> Connection list \<Rightarrow> bool" where
  "stepsKeep Q proc conns \<longleftrightarrow>
     (\<forall>n. Q n n) \<and> (\<forall>a b c. Q a b \<longrightarrow> Q b c \<longrightarrow> Q a c) \<and>
     (\<forall>a b. Q a b \<longrightarrow> node_id b = node_id a) \<and> (\<forall>n. Q n (proc n)) \<and>
     (\<forall>c\<in>set conns. \<forall>m n. inputNode c = node_id n \<longrightarrow> Q n (copyPinData m c n))"

text \<open>The nodes before and after, position by position.\<close>

definition related ::
  "('s BaseNode \<Rightarrow> 's BaseNode \<Rightarrow> bool) \<Rightarrow> 's BaseNode list \<Rightarrow> 's BaseNode list \<Rightarrow> bool" where
  "related Q ns ns' \<longleftrightarrow> list_all2 Q ns ns'"

text \<open>The relation that only records that the node id is kept.\<close>

definition sameId :: "'s BaseNode \<Rightarrow> 's BaseNode \<Rightarrow> bool" where
  "sameId a b \<longleftrightarrow> node_id b = node_id a"

text \<open>What a pass may change of a node: the buffers of its pins and its internal state; an
  input buffer is either left or overwritten by a non-empty one.\<close>

definition passFrame :: "'s BaseNode \<Rightarrow> 's BaseNode \<Rightarrow> bool" where
  "passFrame a b \<longleftrightarrow>
     node_id b = node_id a \<and> node_name b = node_name a \<and>
     map pinShape (inputs b) = map pinShape (inputs a) \<and>
     map pinShape (outputs b) = map pinShape (outputs a) \<and>
     list_all2 (\<lambda>p q. data q = data p \<or> data q \<noteq> []) (inputs a) (inputs b)"

text \<open>For the nodes with id \<open>X\<close>: the input pins with id \<open>P\<close> keep their buffer.\<close>

definition keepsPin :: "int \<Rightarrow> int \<Rightarrow> 's BaseNode \<Rightarrow> 's BaseNode \<Rightarrow> bool" where
  "keepsPin X P a b \<longleftrightarrow>
     passFrame a b \<and>
     (node_id a = X \<longrightarrow> list_all2 (\<lambda>p q. pin_id p = P \<longrightarrow> data q = data p) (inputs a) (inputs b))"

subsection \<open>Dependency order\<close>

text \<open>The connection relation on node ids: from the producer (\<open>outputNode\<close>) to the consumer
  (\<open>inputNode\<close>).\<close>

definition edges :: "Connection list \<Rightarrow> (int \<times> int) set" where
  "edges conns = (\<lambda>c. (outputNode c, inputNode c)) ` set conns"

text \<open>A dependency chain: each node id is followed by the id of a node it takes an input
  from.\<close>

fun isChain :: "Connection list \<Rightarrow> int list \<Rightarrow> bool" where
  "isChain conns [] = True"
| "isChain conns [v] = True"
| "isChain conns (v # w # p) = ((w, v) \<in> edges conns \<and> isChain conns (w # p))"

text \<open>\<open>L\<close> is the number of nodes on a longest dependency chain.\<close>

definition longestChain :: "Connection list \<Rightarrow> nat \<Rightarrow> bool" where
  "longestChain conns L \<longleftrightarrow>
     (\<exists>p. isChain conns p \<and> length p = L) \<and> (\<forall>p. isChain conns p \<longrightarrow> length p \<le> L)"

text \<open>Every dependency chain that starts at \<open>v\<close> has at most \<open>d\<close> nodes.\<close>

definition chainsWithin :: "Connection list \<Rightarrow> int \<Rightarrow> nat \<Rightarrow> bool" where
  "chainsWithin conns v d \<longleftrightarrow> (\<forall>p. isChain conns (v # p) \<longrightarrow> Suc (length p) \<le> d)"

text \<open>A node id lies on a cycle of the connection relation; no node with such an id has
  been processed.\<close>

definition onCycle :: "Connection list \<Rightarrow> int \<Rightarrow> bool" where
  "onCycle conns v \<longleftrightarrow> (v, v) \<in> (edges conns)\<^sup>+"

definition offCycle :: "'s BaseNode list \<Rightarrow> Connection list \<Rightarrow> 's passState \<Rightarrow> bool" where
  "offCycle ns0 conns st \<longleftrightarrow>
     map node_id (fst st) = map node_id ns0 \<and>
     (\<forall>k\<in>set (snd st). \<not> onCycle conns (node_id (ns0 ! k)))"

subsection \<open>What a pass computes\<close>

text \<open>The inputs of a node as the pass prepares them: going through the connections in
  list order, every connection that names the node as \<open>inputNode\<close> copies from the node
  its \<open>outputNode\<close> resolves to in \<open>ns\<close>.\<close>

definition fillStep :: "'s BaseNode list \<Rightarrow> 's BaseNode \<Rightarrow> Connection \<Rightarrow> 's BaseNode" where
  "fillStep ns n c =
     (if inputNode c = node_id n then
        (case findNodeById ns (outputNode c) of
           None \<Rightarrow> n
         | Some u \<Rightarrow> copyPinData (ns ! u) c n)
      else n)"

definition fillInputs :: "'s BaseNode list \<Rightarrow> Connection list \<Rightarrow> 's BaseNode \<Rightarrow> 's BaseNode" where
  "fillInputs ns conns n = foldl (fillStep ns) n conns"

text \<open>In the sequence of \<^verbatim>\<open>process()\<close> calls, \<open>u\<close> is processed before \<open>k\<close>; and, for every
  connection into \<open>k\<close>, the producer it resolves to is processed before \<open>k\<close>.\<close>

definition calledBefore :: "nat \<Rightarrow> nat \<Rightarrow> nat list \<Rightarrow> bool" where
  "calledBefore u k order \<longleftrightarrow> k \<in> set order \<and> u \<in> set (takeWhile (\<lambda>x. x \<noteq> k) order)"

definition upstreamsBefore ::
  "'s BaseNode list \<Rightarrow> Connection list \<Rightarrow> nat list \<Rightarrow> nat \<Rightarrow> bool" where
  "upstreamsBefore ns0 conns order k \<longleftrightarrow>
     (\<forall>c\<in>set conns. inputNode c = node_id (ns0 ! k) \<longrightarrow>
        (\<forall>u. findNodeById ns0 (outputNode c) = Some u \<longrightarrow> calledBefore u k order))"

text \<open>The invariant of the traversal, for the nodes \<open>ns0\<close> at the start of the pass: ids are
  kept, no node is processed twice, and every processed node is the result of
  \<^verbatim>\<open>process()\<close> on its initial state with the inputs filled from the current state of its
  producers, all of which were processed before it.\<close>

definition passInv ::
  "'s BaseNode list \<Rightarrow> Connection list \<Rightarrow> ('s BaseNode \<Rightarrow> 's BaseNode) \<Rightarrow> 's passState \<Rightarrow> bool" where
  "passInv ns0 conns proc st \<longleftrightarrow>
     map node_id (fst st) = map node_id ns0 \<and> distinct (snd st) \<and>
     (\<forall>k\<in>set (snd st). k < length ns0 \<and>
        fst st ! k = proc (fillInputs (fst st) conns (ns0 ! k)) \<and>
        upstreamsBefore ns0 conns (snd st) k)"

text \<open>Node \<open>k\<close> is node \<open>j\<close> or one of its direct or indirect producers.\<close>

definition upOf :: "'s BaseNode list \<Rightarrow> Connection list \<Rightarrow> nat \<Rightarrow> nat \<Rightarrow> bool" where
  "upOf ns0 conns k j \<longleftrightarrow> (node_id (ns0 ! k), node_id (ns0 ! j)) \<in> (edges conns)\<^sup>*"

text \<open>What a call of \<^verbatim>\<open>processNode\<close> on node \<open>j\<close> achieves when all unprocessed producers
  of \<open>j\<close> (and \<open>j\<close> itself) are still in their initial state: the invariant is kept, \<open>j\<close> is
  processed, and only \<open>j\<close> and producers of \<open>j\<close> were processed and changed.\<close>

definition nodeSpec ::
  "'s BaseNode list \<Rightarrow> Connection list \<Rightarrow> ('s BaseNode \<Rightarrow> 's BaseNode) \<Rightarrow>
   (nat \<Rightarrow> 's passState \<Rightarrow> 's passState option) \<Rightarrow> bool" where
  "nodeSpec ns0 conns proc recur \<longleftrightarrow>
     (\<forall>j ns dn ns' dn'.
        passInv ns0 conns proc (ns, dn) \<longrightarrow> j < length ns0 \<longrightarrow>
        (\<forall>k<length ns0. k \<notin> set dn \<longrightarrow> upOf ns0 conns k j \<longrightarrow> ns ! k = ns0 ! k) \<longrightarrow>
        recur j (ns, dn) = Some (ns', dn') \<longrightarrow>
        passInv ns0 conns proc (ns', dn') \<and> j \<in> set dn' \<and>
        (\<exists>new. dn' = dn @ new \<and> (\<forall>k\<in>set new. upOf ns0 conns k j) \<and>
               (\<forall>k<length ns0. k \<notin> set new \<longrightarrow> ns' ! k = ns ! k)))"

text \<open>The invariant of the loop over the connections in \<^verbatim>\<open>processNode\<close> for node \<open>j\<close>, after
  the connections \<open>pre\<close> have been handled, starting from the state \<open>st0\<close>.\<close>

definition loopInv ::
  "'s BaseNode list \<Rightarrow> Connection list \<Rightarrow> ('s BaseNode \<Rightarrow> 's BaseNode) \<Rightarrow> nat \<Rightarrow>
   's passState \<Rightarrow> Connection list \<Rightarrow> 's passState \<Rightarrow> bool" where
  "loopInv ns0 conns proc j st0 pre st \<longleftrightarrow>
     passInv ns0 conns proc st \<and> j \<notin> set (snd st) \<and>
     fst st ! j = fillInputs (fst st) pre (ns0 ! j) \<and>
     (\<forall>c\<in>set pre. inputNode c = node_id (ns0 ! j) \<longrightarrow>
        (\<forall>u. findNodeById ns0 (outputNode c) = Some u \<longrightarrow> u \<in> set (snd st))) \<and>
     (\<forall>k<length ns0. k \<notin> set (snd st) \<longrightarrow> k \<noteq> j \<longrightarrow> upOf ns0 conns k j \<longrightarrow>
        fst st ! k = ns0 ! k) \<and>
     (\<exists>new. snd st = snd st0 @ new \<and> (\<forall>k\<in>set new. upOf ns0 conns k j) \<and>
            (\<forall>k<length ns0. k \<notin> set new \<longrightarrow> k \<noteq> j \<longrightarrow> fst st ! k = fst st0 ! k))"

text \<open>The invariant of the loop of \<^verbatim>\<open>processGraph\<close>: every unprocessed node is in its initial
  state.\<close>

definition topInv ::
  "'s BaseNode list \<Rightarrow> Connection list \<Rightarrow> ('s BaseNode \<Rightarrow> 's BaseNode) \<Rightarrow> 's passState \<Rightarrow> bool" where
  "topInv ns0 conns proc st \<longleftrightarrow>
     passInv ns0 conns proc st \<and> (\<forall>k<length ns0. k \<notin> set (snd st) \<longrightarrow> fst st ! k = ns0 ! k)"

text \<open>The write that connection \<open>c\<close> makes into the input pins \<open>ps\<close> of a node with id \<open>v\<close>:
  the position and the buffer, if any.\<close>

definition writeOf ::
  "'s BaseNode list \<Rightarrow> int \<Rightarrow> Pin list \<Rightarrow> Connection \<Rightarrow> (nat \<times> Mat) option" where
  "writeOf ns v ps c =
     (if inputNode c = v then
        (case findNodeById ns (outputNode c) of
           None \<Rightarrow> None
         | Some u \<Rightarrow>
             (let oi = findPinIndex (outputs (ns ! u)) (outputPin c);
                  ii = findPinIndex ps (inputPin c)
              in if 0 \<le> oi \<and> 0 \<le> ii \<and> data (outputs (ns ! u) ! nat oi) \<noteq> []
                 then Some (nat ii, data (outputs (ns ! u) ! nat oi)) else None))
      else None)"

text \<open>The buffer that the last write into position \<open>i\<close> leaves there, if any connection of
  the list writes into position \<open>i\<close>.\<close>

definition lastWrite ::
  "'s BaseNode list \<Rightarrow> int \<Rightarrow> Pin list \<Rightarrow> Connection list \<Rightarrow> nat \<Rightarrow> Mat option" where
  "lastWrite ns v ps cs i =
     foldl (\<lambda>acc c. case writeOf ns v ps c of
                       None \<Rightarrow> acc
                     | Some (j, d) \<Rightarrow> if j = i then Some d else acc) None cs"

subsection \<open>Disconnecting\<close>

text \<open>Lines 103--119 of \<^verbatim>\<open>deleteConnection\<close>: the nodes after the two pins of the connection
  have been cleared.\<close>

definition clearedPins :: "'s BaseNode list \<Rightarrow> Connection \<Rightarrow> 's BaseNode list" where
  "clearedPins ns conn =
     (let ns1 = (case findNodeById ns (inputNode conn) of
                   None \<Rightarrow> ns
                 | Some k \<Rightarrow> ns[k := (ns ! k)
                     \<lparr>inputs := map (clearInputPin (inputPin conn)) (inputs (ns ! k))\<rparr>])
      in case findNodeById ns1 (outputNode conn) of
           None \<Rightarrow> ns1
         | Some k \<Rightarrow> ns1[k := (ns1 ! k)
             \<lparr>outputs := map (clearOutputPin (outputPin conn)) (outputs (ns1 ! k))\<rparr>])"

text \<open>\<^verbatim>\<open>connections.erase(connections.begin() + i)\<close>.\<close>

definition withoutConn :: "nat \<Rightarrow> Connection list \<Rightarrow> Connection list" where
  "withoutConn i cs = take i cs @ drop (Suc i) cs"

subsection \<open>Sequences of editing operations\<close>





text \<open>The ids of a node and of its pins.\<close>

definition nodeShape :: "'s BaseNode \<Rightarrow> int \<times> int list \<times> int list" where
  "nodeShape n = (node_id n, map pin_id (inputs n), map pin_id (outputs n))"


subsection \<open>Buffers with explicit storage\<close>

text \<open>
  A \<^verbatim>\<open>cv::Mat\<close> is a header that refers to a pixel buffer, and several headers may refer to
  the same buffer. To speak about sharing, the buffers allocated so far are kept in a
  store, a buffer's address is its position, and a header is \<open>None\<close> (no buffer, as after
  \<^verbatim>\<open>release()\<close>) or \<open>Some a\<close>. \<^verbatim>\<open>empty()\<close>, \<^verbatim>\<open>clone()\<close> and writing into a buffer are modelled
  after the documentation of \<^verbatim>\<open>cv::Mat\<close>: \<^verbatim>\<open>clone()\<close> allocates a new buffer and copies the
  samples into it.
\<close>

type_synonym store = "Mat list"

type_synonym matRef = "nat option"

definition refOK :: "store \<Rightarrow> matRef \<Rightarrow> bool" where
  "refOK h r = (case r of None \<Rightarrow> True | Some a \<Rightarrow> a < length h)"

definition contents :: "store \<Rightarrow> matRef \<Rightarrow> Mat" where
  "contents h r = (case r of None \<Rightarrow> [] | Some a \<Rightarrow> h ! a)"

definition matEmpty :: "store \<Rightarrow> matRef \<Rightarrow> bool" where
  "matEmpty h r \<longleftrightarrow> contents h r = []"

definition matClone :: "store \<Rightarrow> matRef \<Rightarrow> store \<times> matRef" where
  "matClone h r = (case r of None \<Rightarrow> (h, None) | Some a \<Rightarrow> (h @ [h ! a], Some (length h)))"

definition matWrite :: "store \<Rightarrow> nat \<Rightarrow> Mat \<Rightarrow> store" where
  "matWrite h a v = h[a := v]"

text \<open>Lines 231--235 of \<^verbatim>\<open>processNode\<close> on headers: \<open>src\<close> is \<^verbatim>\<open>srcData\<close>, \<open>dst\<close> is the
  header in the input pin; the result is the store and the input pin's header after.\<close>

definition handOff :: "store \<Rightarrow> matRef \<Rightarrow> matRef \<Rightarrow> store \<times> matRef" where
  "handOff h src dst = (if \<not> matEmpty h src then matClone h src else (h, dst))"

subsection \<open>Example data\<close>

text \<open>A node with one input pin and one output pin, numbered as \<^verbatim>\<open>addNode\<close> would; a
  \<^verbatim>\<open>process()\<close> that emits the constant buffer \<open>[1, 2, 3]\<close> in a node with parameter \<open>0\<close> and
  the input samples times the parameter otherwise; a connection from the output pin of
  node \<open>a\<close> to the input pin of node \<open>b\<close>.\<close>

definition demoPin :: "int \<Rightarrow> Pin" where
  "demoPin i = \<lparr>pin_id = i, pin_name = [], data = [], connected = False\<rparr>"

definition demoNode :: "int \<Rightarrow> nat \<Rightarrow> nat BaseNode" where
  "demoNode i v = \<lparr>node_id = i, node_name = [], inputs = [demoPin (i + 1)],
     outputs = [demoPin (i + 2)], dirty = False, vstate = v\<rparr>"

definition demoProc :: "nat BaseNode \<Rightarrow> nat BaseNode" where
  "demoProc n = n\<lparr>outputs := map (\<lambda>p. p\<lparr>data :=
      (if vstate n = 0 then [1, 2, 3]
       else map (\<lambda>x. vstate n * x) (concat (map data (inputs n))))\<rparr>) (outputs n)\<rparr>"

definition demoLink :: "int \<Rightarrow> int \<Rightarrow> Connection" where
  "demoLink a b = \<lparr>inputNode = b, outputNode = a, inputPin = b + 1, outputPin = a + 2\<rparr>"

text \<open>The chain 6 \<rightarrow> 3 \<rightarrow> 0 with the nodes listed consumer first, a two-node cycle, two
  producers into one input pin, and one output pin into two consumers.\<close>

definition demoChain :: "nat NodeEditor" where
  "demoChain = \<lparr>nodes = [demoNode 0 3, demoNode 3 2, demoNode 6 0],
     connections = [demoLink 3 0, demoLink 6 3], currentId = 9, selectedNode = None\<rparr>"

definition demoCycle :: "nat NodeEditor" where
  "demoCycle = \<lparr>nodes = [demoNode 0 3, demoNode 3 2],
     connections = [demoLink 3 0, demoLink 0 3], currentId = 6, selectedNode = None\<rparr>"

definition demoFanIn :: "nat NodeEditor" where
  "demoFanIn = \<lparr>nodes = [demoNode 6 0, demoNode 3 2, demoNode 9 0],
     connections = [demoLink 6 3, demoLink 9 3], currentId = 12, selectedNode = None\<rparr>"

definition demoFanOut :: "nat NodeEditor" where
  "demoFanOut =
     \<lparr>nodes = [(demoNode 6 0)\<lparr>outputs := [(demoPin 8)\<lparr>connected := True\<rparr>]\<rparr>,
               (demoNode 3 2)\<lparr>inputs := [(demoPin 4)\<lparr>data := [9], connected := True\<rparr>]\<rparr>,
               (demoNode 0 3)\<lparr>inputs := [(demoPin 1)\<lparr>connected := True\<rparr>]\<rparr>],
      connections = [demoLink 6 3, demoLink 6 0], currentId = 9, selectedNode = None\<rparr>"



subsection \<open>Identifiers drawn by a sequence of addNode calls\<close>



subsection \<open>Identifiers drawn by a sequence of editing operations\<close>



subsection \<open>An editor whose counter has wrapped\<close>



section \<open>Frame of the evaluation pass\<close>

lemma findNodeById_Some:
  "findNodeById ns x = Some k \<Longrightarrow> k < length ns \<and> node_id (ns ! k) = x"
proof (induction ns arbitrary: k)
  case Nil
  then show ?case by simp
next
  case (Cons n ns)
  then show ?case by (auto split: if_splits)
qed


lemma findNodeById_ids:
  "map node_id ns = map node_id ns' \<Longrightarrow> findNodeById ns x = findNodeById ns' x"
proof (induction ns arbitrary: ns')
  case Nil
  then show ?case by simp
next
  case (Cons n ns)
  then obtain m ms where "ns' = m # ms" by (cases ns') auto
  with Cons show ?case by auto
qed

lemma copyPinData_id [simp]: "node_id (copyPinData m c n) = node_id n"
  by (simp add: copyPinData_def Let_def)

lemma related_refl: "stepsKeep Q proc conns \<Longrightarrow> related Q ns ns"
  by (simp add: related_def stepsKeep_def list_all2_same)

lemma related_trans:
  assumes "stepsKeep Q proc conns" "related Q a b" "related Q b c"
  shows "related Q a c"
proof -
  from assms(1) have "\<And>x y z. Q x y \<Longrightarrow> Q y z \<Longrightarrow> Q x z"
    unfolding stepsKeep_def by blast
  with assms(2,3) show ?thesis
    unfolding related_def by (rule list_all2_trans[rotated 1])
qed

lemma related_update:
  assumes "stepsKeep Q proc conns" "Q (ns ! k) x"
  shows "related Q ns (ns[k := x])"
proof (cases "k < length ns")
  case True
  have "list_all2 Q ns (ns[k := x])"
    unfolding list_all2_conv_all_nth
  proof (intro conjI allI impI)
    show "length ns = length (ns[k := x])" by simp
  next
    fix i assume "i < length ns"
    then show "Q (ns ! i) (ns[k := x] ! i)"
      using assms by (cases "i = k") (auto simp: stepsKeep_def)
  qed
  then show ?thesis by (simp add: related_def)
next
  case False
  then show ?thesis using related_refl[OF assms(1)] by (simp add: list_update_beyond not_less)
qed

lemma depStep_related:
  assumes sk: "stepsKeep Q proc conns"
    and rec: "\<And>j st st'. recur j st = Some st' \<Longrightarrow> related Q (fst st) (fst st')"
    and c: "c \<in> set conns"
    and step: "depStep recur node c st = Some st'"
  shows "related Q (fst st) (fst st')"
proof (cases "inputNode c = node_id (fst st ! node)")
  case False
  with step show ?thesis using related_refl[OF sk] by (simp add: depStep_def)
next
  case True
  show ?thesis
  proof (cases "findNodeById (fst st) (outputNode c)")
    case None
    with True step show ?thesis using related_refl[OF sk] by (simp add: depStep_def)
  next
    case (Some u)
    with True step obtain ns1 done1 where r: "recur u st = Some (ns1, done1)"
      and st': "st' = (ns1[node := copyPinData (ns1 ! u) c (ns1 ! node)], done1)"
      by (auto simp: depStep_def split: option.splits)
    have r1: "related Q (fst st) ns1" using rec[OF r] by simp
    then have len: "length ns1 = length (fst st)"
      by (simp add: related_def list_all2_lengthD)
    have "related Q ns1 (ns1[node := copyPinData (ns1 ! u) c (ns1 ! node)])"
    proof (cases "node < length ns1")
      case False
      then show ?thesis using related_refl[OF sk] by (simp add: list_update_beyond not_less)
    next
      case lt: True
      have "Q (fst st ! node) (ns1 ! node)"
        using r1 lt len by (simp add: related_def list_all2_conv_all_nth)
      then have "node_id (ns1 ! node) = node_id (fst st ! node)"
        using sk unfolding stepsKeep_def by blast
      with True have "inputNode c = node_id (ns1 ! node)" by simp
      then have "Q (ns1 ! node) (copyPinData (ns1 ! u) c (ns1 ! node))"
        using sk c unfolding stepsKeep_def by blast
      then show ?thesis by (rule related_update[OF sk])
    qed
    with r1 show ?thesis unfolding st' fst_conv by (rule related_trans[OF sk])
  qed
qed

lemma forEachConn_related:
  assumes sk: "stepsKeep Q proc conns"
    and rec: "\<And>j st st'. recur j st = Some st' \<Longrightarrow> related Q (fst st) (fst st')"
  shows "set cs \<subseteq> set conns \<Longrightarrow> forEachConn (depStep recur node) cs st = Some st' \<Longrightarrow>
         related Q (fst st) (fst st')"
proof (induction cs arbitrary: st)
  case Nil
  then show ?case using related_refl[OF sk] by simp
next
  case (Cons c cs)
  from Cons.prems(2) obtain st1 where s1: "depStep recur node c st = Some st1"
    and s2: "forEachConn (depStep recur node) cs st1 = Some st'"
    by (auto split: option.splits)
  have "related Q (fst st) (fst st1)"
    using depStep_related[OF sk rec _ s1] Cons.prems(1) by simp
  moreover have "related Q (fst st1) (fst st')"
    using Cons.IH[OF _ s2] Cons.prems(1) by simp
  ultimately show ?case by (rule related_trans[OF sk])
qed

lemma processNode_related:
  assumes sk: "stepsKeep Q proc conns"
  shows "processNode d proc conns j st = Some st' \<Longrightarrow> related Q (fst st) (fst st')"
proof (induction d arbitrary: j st st')
  case 0
  then show ?case by simp
next
  case (Suc d)
  show ?case
  proof (cases "j \<in> set (snd st)")
    case True
    with Suc.prems show ?thesis using related_refl[OF sk] by simp
  next
    case False
    with Suc.prems obtain ns1 done1 where
      l: "forEachConn (depStep (processNode d proc conns) j) conns st = Some (ns1, done1)"
      and st': "st' = (ns1[j := proc (ns1 ! j)], done1 @ [j])"
      by (auto split: option.splits)
    have "related Q (fst st) ns1"
      using forEachConn_related[OF sk Suc.IH _ l] by simp
    moreover have "related Q ns1 (ns1[j := proc (ns1 ! j)])"
      using sk by (intro related_update[OF sk]) (simp add: stepsKeep_def)
    ultimately show ?thesis unfolding st' fst_conv by (rule related_trans[OF sk])
  qed
qed

lemma processAll_related:
  assumes sk: "stepsKeep Q proc conns"
  shows "processAll d proc conns ks st = Some st' \<Longrightarrow> related Q (fst st) (fst st')"
proof (induction ks arbitrary: st)
  case Nil
  then show ?case using related_refl[OF sk] by simp
next
  case (Cons k ks)
  from Cons.prems obtain st1 where s1: "processNode d proc conns k st = Some st1"
    and s2: "processAll d proc conns ks st1 = Some st'"
    by (auto split: option.splits)
  show ?case
    using related_trans[OF sk processNode_related[OF sk s1] Cons.IH[OF s2]] .
qed

lemma processGraph_related:
  assumes sk: "stepsKeep Q proc (pruned g)" and pg: "processGraph d proc g = Some g'"
  shows "related Q (nodes g) (nodes g') \<and> connections g' = pruned g \<and>
         currentId g' = currentId g \<and> selectedNode g' = selectedNode g"
proof -
  from pg obtain ns dn where rp: "runPass d proc g = Some (ns, dn)"
    and g': "g' = g\<lparr>nodes := ns, connections := pruned g\<rparr>"
    by (auto simp: processGraph_def split: option.splits)
  from rp have "related Q (nodes g) ns"
    using processAll_related[OF sk] unfolding runPass_def by fastforce
  then show ?thesis by (simp add: g')
qed

section \<open>Unknown node kinds\<close>

text \<open>
  C7. A kind that \<^verbatim>\<open>createNode\<close> does not recognise yields no node, and whenever the factory
  yields no node, \<^verbatim>\<open>addNode\<close> returns the editor as it was: no node is inserted and the
  counter keeps its value.
\<close>

theorem unknown_kind_rejected:
  "createNode ctor (Unrecognized v) = None \<and>
   addNode ctor (Unrecognized v) g = g \<and>
   nodes (addNode ctor (Unrecognized v) g) = nodes g \<and>
   currentId (addNode ctor (Unrecognized v) g) = currentId g"
  by (simp add: createNode_def addNode_def)

section \<open>The traversal\<close>

lemma fillStep_id [simp]: "node_id (fillStep ns n c) = node_id n"
  by (simp add: fillStep_def split: option.splits)

lemma fillInputs_id [simp]: "node_id (fillInputs ns cs n) = node_id n"
  unfolding fillInputs_def by (induction cs arbitrary: n) simp_all

lemma fillInputs_snoc: "fillInputs ns (pre @ [c]) n = fillStep ns (fillInputs ns pre n) c"
  by (simp add: fillInputs_def)

lemma fillInputs_cong:
  assumes ids: "map node_id ns = map node_id ns'"
    and same: "\<And>c u. c \<in> set cs \<Longrightarrow> inputNode c = node_id n \<Longrightarrow>
                 findNodeById ns (outputNode c) = Some u \<Longrightarrow> ns ! u = ns' ! u"
  shows "fillInputs ns cs n = fillInputs ns' cs n"
  using same
proof (induction cs arbitrary: n rule: rev_induct)
  case Nil
  show ?case by (simp add: fillInputs_def)
next
  case (snoc c cs)
  have ih: "fillInputs ns cs n = fillInputs ns' cs n"
    using snoc.prems by (intro snoc.IH) auto
  have "fillStep ns (fillInputs ns' cs n) c = fillStep ns' (fillInputs ns' cs n) c"
  proof (cases "inputNode c = node_id n")
    case False
    then show ?thesis by (simp add: fillStep_def)
  next
    case True
    show ?thesis
    proof (cases "findNodeById ns (outputNode c)")
      case None
      then show ?thesis using findNodeById_ids[OF ids, of "outputNode c"]
        by (simp add: fillStep_def)
    next
      case (Some u)
      then have "ns ! u = ns' ! u" using snoc.prems[of c u] True by simp
      then show ?thesis using Some findNodeById_ids[OF ids, of "outputNode c"]
        by (simp add: fillStep_def)
    qed
  qed
  then show ?case by (simp add: fillInputs_snoc ih)
qed

lemma map_id_update:
  "node_id x = node_id (ns ! j) \<Longrightarrow> map node_id (ns[j := x]) = map node_id ns"
  by (metis list_update_id map_update)

lemma acyclic_no_back:
  assumes "acyclic r" "(a, b) \<in> r\<^sup>*" "(b, c) \<in> r"
  shows "a \<noteq> c"
proof
  assume "a = c"
  with assms(2,3) have "(c, c) \<in> r\<^sup>+" by (metis rtrancl_into_trancl1)
  with assms(1) show False by (simp add: acyclic_def)
qed

lemma calledBefore_append:
  "calledBefore u k xs \<Longrightarrow> calledBefore u k (xs @ ys)"
  by (auto simp: calledBefore_def takeWhile_append1 dest: split_list)

lemma calledBefore_in: "calledBefore u k xs \<Longrightarrow> u \<in> set xs"
  by (auto simp: calledBefore_def dest: set_takeWhileD)

lemma calledBefore_last:
  assumes "u \<in> set xs" "j \<notin> set xs"
  shows "calledBefore u j (xs @ [j])"
proof -
  have "takeWhile (\<lambda>x. x \<noteq> j) (xs @ [j]) = xs"
    using assms(2) by (subst takeWhile_append2) auto
  with assms(1) show ?thesis by (simp add: calledBefore_def)
qed

section \<open>The traversal: loop invariant\<close>

lemma passInv_ids: "passInv ns0 conns proc (ns, dn) \<Longrightarrow> map node_id ns = map node_id ns0"
  by (simp add: passInv_def)

lemma passInv_length: "passInv ns0 conns proc (ns, dn) \<Longrightarrow> length ns = length ns0"
  by (metis passInv_ids length_map)

lemma passInv_id_nth:
  "passInv ns0 conns proc (ns, dn) \<Longrightarrow> k < length ns0 \<Longrightarrow> node_id (ns ! k) = node_id (ns0 ! k)"
  by (metis passInv_ids passInv_length nth_map)

lemma passInv_upstream_seen:
  assumes "passInv ns0 conns proc (ns, dn)" "k \<in> set dn" "c \<in> set conns"
    "inputNode c = node_id (ns0 ! k)" "findNodeById ns0 (outputNode c) = Some u"
  shows "u \<in> set dn"
  using assms unfolding passInv_def upstreamsBefore_def
  by (auto dest: calledBefore_in)

text \<open>Writing a node that is neither processed nor upstream of a processed node keeps the
  invariant.\<close>

lemma passInv_update:
  assumes pi: "passInv ns0 conns proc (ns, dn)"
    and j: "j \<notin> set dn"
    and x: "node_id x = node_id (ns ! j)"
  shows "passInv ns0 conns proc (ns[j := x], dn)"
proof -
  have ids: "map node_id (ns[j := x]) = map node_id ns"
    using x by (rule map_id_update)
  have ids0: "map node_id ns = map node_id ns0" using pi by (rule passInv_ids)
  have "fst (ns[j := x], dn) ! k = proc (fillInputs (fst (ns[j := x], dn)) conns (ns0 ! k))"
    if k: "k \<in> set dn" for k
  proof -
    have kj: "k \<noteq> j" using k j by auto
    have "fillInputs ns conns (ns0 ! k) = fillInputs (ns[j := x]) conns (ns0 ! k)"
    proof (rule fillInputs_cong)
      show "map node_id ns = map node_id (ns[j := x])" using ids by simp
    next
      fix c u
      assume c: "c \<in> set conns" and i: "inputNode c = node_id (ns0 ! k)"
        and f: "findNodeById ns (outputNode c) = Some u"
      have "findNodeById ns0 (outputNode c) = Some u"
        using f findNodeById_ids[OF ids0] by simp
      then have "u \<in> set dn" using passInv_upstream_seen[OF pi k c i] by simp
      then have "u \<noteq> j" using j by auto
      then show "ns ! u = ns[j := x] ! u" by simp
    qed
    moreover have "ns ! k = proc (fillInputs ns conns (ns0 ! k))"
      using pi k by (simp add: passInv_def)
    ultimately show ?thesis using kj by simp
  qed
  then show ?thesis
    using pi ids unfolding passInv_def by simp
qed

lemma loopInv_skip:
  assumes inv: "loopInv ns0 conns proc j st0 pre st"
    and j: "j < length ns0"
    and skip: "inputNode c \<noteq> node_id (fst st ! j) \<or> findNodeById (fst st) (outputNode c) = None"
  shows "loopInv ns0 conns proc j st0 (pre @ [c]) st"
proof -
  obtain ns dn where st: "st = (ns, dn)" by (cases st)
  have pi: "passInv ns0 conns proc (ns, dn)" using inv by (simp add: loopInv_def st)
  have idj: "node_id (ns ! j) = node_id (ns0 ! j)" using passInv_id_nth[OF pi j] .
  have fj: "ns ! j = fillInputs ns pre (ns0 ! j)" using inv by (simp add: loopInv_def st)
  have "fillStep ns (ns ! j) c = ns ! j"
    using skip by (auto simp: fillStep_def st)
  then have 1: "ns ! j = fillInputs ns (pre @ [c]) (ns0 ! j)"
    using fj by (simp add: fillInputs_snoc)
  have 2: "\<forall>u. inputNode c = node_id (ns0 ! j) \<longrightarrow>
              findNodeById ns0 (outputNode c) = Some u \<longrightarrow> u \<in> set dn"
    using skip idj findNodeById_ids[OF passInv_ids[OF pi], of "outputNode c"]
    by (auto simp: st)
  show ?thesis
    using inv 1 2 unfolding loopInv_def st by simp
qed

lemma upOf_refl: "upOf ns0 conns k k"
  by (simp add: upOf_def)

lemma upOf_edge:
  assumes "upOf ns0 conns k u" "(node_id (ns0 ! u), node_id (ns0 ! j)) \<in> edges conns"
  shows "upOf ns0 conns k j"
  using assms unfolding upOf_def by (meson rtrancl.rtrancl_into_rtrancl)

lemma upOf_edge_neq:
  assumes "acyclic (edges conns)" "upOf ns0 conns k u"
    "(node_id (ns0 ! u), node_id (ns0 ! j)) \<in> edges conns"
  shows "k \<noteq> j"
  using acyclic_no_back[OF assms(1) assms(2)[unfolded upOf_def] assms(3)] by auto

lemma loopInv_call:
  assumes acyc: "acyclic (edges conns)"
    and rec: "nodeSpec ns0 conns proc recur"
    and j: "j < length ns0"
    and inv: "loopInv ns0 conns proc j st0 pre (ns, dn)"
    and c: "c \<in> set conns"
    and test: "inputNode c = node_id (ns ! j)"
    and found: "findNodeById ns (outputNode c) = Some u"
    and call: "recur u (ns, dn) = Some (ns1, dn1)"
  shows "loopInv ns0 conns proc j st0 (pre @ [c])
           (ns1[j := copyPinData (ns1 ! u) c (ns1 ! j)], dn1)"
proof -
  let ?ns2 = "ns1[j := copyPinData (ns1 ! u) c (ns1 ! j)]"
  have pi: "passInv ns0 conns proc (ns, dn)" using inv by (simp add: loopInv_def)
  have jn: "j \<notin> set dn" using inv by (simp add: loopInv_def)
  have fj: "ns ! j = fillInputs ns pre (ns0 ! j)" using inv by (simp add: loopInv_def)
  have ups: "\<And>c' u'. c' \<in> set pre \<Longrightarrow> inputNode c' = node_id (ns0 ! j) \<Longrightarrow>
               findNodeById ns0 (outputNode c') = Some u' \<Longrightarrow> u' \<in> set dn"
    using inv by (simp add: loopInv_def)
  have fresh: "\<And>k. k < length ns0 \<Longrightarrow> k \<notin> set dn \<Longrightarrow> k \<noteq> j \<Longrightarrow> upOf ns0 conns k j \<Longrightarrow>
                 ns ! k = ns0 ! k"
    using inv by (simp add: loopInv_def)
  obtain new where new: "dn = snd st0 @ new" "\<forall>k\<in>set new. upOf ns0 conns k j"
    "\<forall>k<length ns0. k \<notin> set new \<longrightarrow> k \<noteq> j \<longrightarrow> ns ! k = fst st0 ! k"
    using inv by (auto simp: loopInv_def)
  have ids: "map node_id ns = map node_id ns0" using pi by (rule passInv_ids)
  have idj: "node_id (ns ! j) = node_id (ns0 ! j)" using passInv_id_nth[OF pi j] .
  have found0: "findNodeById ns0 (outputNode c) = Some u"
    using found findNodeById_ids[OF ids] by simp
  have u: "u < length ns0" and idu: "node_id (ns0 ! u) = outputNode c"
    using findNodeById_Some[OF found0] by simp_all
  have edge: "(node_id (ns0 ! u), node_id (ns0 ! j)) \<in> edges conns"
    using c test idj idu by (force simp: edges_def)
  have pre_u: "\<forall>k<length ns0. k \<notin> set dn \<longrightarrow> upOf ns0 conns k u \<longrightarrow> ns ! k = ns0 ! k"
  proof (intro allI impI)
    fix k assume k: "k < length ns0" "k \<notin> set dn" "upOf ns0 conns k u"
    show "ns ! k = ns0 ! k"
      using fresh[OF k(1,2) upOf_edge_neq[OF acyc k(3) edge] upOf_edge[OF k(3) edge]] .
  qed
  from rec pi u pre_u call
  have post: "passInv ns0 conns proc (ns1, dn1) \<and> u \<in> set dn1 \<and>
        (\<exists>new. dn1 = dn @ new \<and> (\<forall>k\<in>set new. upOf ns0 conns k u) \<and>
               (\<forall>k<length ns0. k \<notin> set new \<longrightarrow> ns1 ! k = ns ! k))"
    unfolding nodeSpec_def by blast
  then obtain new1 where pi1: "passInv ns0 conns proc (ns1, dn1)" and useen: "u \<in> set dn1"
    and dn1: "dn1 = dn @ new1" and up1: "\<forall>k\<in>set new1. upOf ns0 conns k u"
    and same1: "\<forall>k<length ns0. k \<notin> set new1 \<longrightarrow> ns1 ! k = ns ! k"
    by blast
  have jnew1: "j \<notin> set new1"
    using up1 upOf_edge_neq[OF acyc _ edge] by blast
  have jn1: "j \<notin> set dn1" using jn jnew1 dn1 by simp
  have uj: "u \<noteq> j" using useen jn1 by auto
  have nsj: "ns1 ! j = ns ! j" using same1 j jnew1 by simp
  have len1: "length ns1 = length ns0" using pi1 by (rule passInv_length)
  have ids1: "map node_id ns1 = map node_id ns0" using pi1 by (rule passInv_ids)
  have dist1: "distinct dn1" using pi1 by (simp add: passInv_def)
  \<comment> \<open>the six parts of the invariant\<close>
  have 1: "passInv ns0 conns proc (?ns2, dn1)"
    using pi1 jn1 by (rule passInv_update) simp
  have ids2: "map node_id ?ns2 = map node_id ns0"
    using 1 by (rule passInv_ids)
  have fillpre: "fillInputs ?ns2 pre (ns0 ! j) = fillInputs ns pre (ns0 ! j)"
  proof (rule fillInputs_cong)
    show "map node_id ?ns2 = map node_id ns" using ids2 ids by simp
  next
    fix c' u'
    assume c': "c' \<in> set pre" and i: "inputNode c' = node_id (ns0 ! j)"
      and f: "findNodeById ?ns2 (outputNode c') = Some u'"
    have "findNodeById ns0 (outputNode c') = Some u'"
      using f findNodeById_ids[OF ids2] by simp
    then have u'dn: "u' \<in> set dn" using ups[OF c' i] by simp
    then have "u' \<notin> set new1" using dist1 dn1 by auto
    moreover have "u' < length ns0" using \<open>findNodeById ns0 (outputNode c') = Some u'\<close>
      by (simp add: findNodeById_Some)
    ultimately have "ns1 ! u' = ns ! u'" using same1 by simp
    moreover have "u' \<noteq> j" using u'dn jn by auto
    ultimately show "?ns2 ! u' = ns ! u'" by simp
  qed
  have "fillStep ?ns2 (ns ! j) c = copyPinData (ns1 ! u) c (ns ! j)"
    using test found0 findNodeById_ids[OF ids2, of "outputNode c"] uj
    by (simp add: fillStep_def)
  then have 3: "?ns2 ! j = fillInputs ?ns2 (pre @ [c]) (ns0 ! j)"
    using j len1 nsj fj fillpre by (simp add: fillInputs_snoc)
  have 4: "\<forall>c'\<in>set (pre @ [c]). inputNode c' = node_id (ns0 ! j) \<longrightarrow>
        (\<forall>u'. findNodeById ns0 (outputNode c') = Some u' \<longrightarrow> u' \<in> set dn1)"
    using ups found0 useen dn1 by auto
  have 5: "\<forall>k<length ns0. k \<notin> set dn1 \<longrightarrow> k \<noteq> j \<longrightarrow> upOf ns0 conns k j \<longrightarrow> ?ns2 ! k = ns0 ! k"
  proof (intro allI impI)
    fix k assume k: "k < length ns0" "k \<notin> set dn1" "k \<noteq> j" "upOf ns0 conns k j"
    have "ns ! k = ns0 ! k" using fresh k dn1 by simp
    moreover have "ns1 ! k = ns ! k" using same1 k dn1 by simp
    ultimately show "?ns2 ! k = ns0 ! k" using k(3) by simp
  qed
  have 6: "\<exists>new'. dn1 = snd st0 @ new' \<and> (\<forall>k\<in>set new'. upOf ns0 conns k j) \<and>
            (\<forall>k<length ns0. k \<notin> set new' \<longrightarrow> k \<noteq> j \<longrightarrow> ?ns2 ! k = fst st0 ! k)"
  proof (intro exI[of _ "new @ new1"] conjI)
    show "dn1 = snd st0 @ new @ new1" using new(1) dn1 by simp
    show "\<forall>k\<in>set (new @ new1). upOf ns0 conns k j"
      using new(2) up1 upOf_edge[OF _ edge] by auto
    show "\<forall>k<length ns0. k \<notin> set (new @ new1) \<longrightarrow> k \<noteq> j \<longrightarrow> ?ns2 ! k = fst st0 ! k"
      using new(3) same1 by auto
  qed
  show ?thesis
    unfolding loopInv_def fst_conv snd_conv
    using 1 jn1 3 4 5 6 by blast
qed

lemma loopInv_step:
  assumes acyc: "acyclic (edges conns)"
    and rec: "nodeSpec ns0 conns proc recur"
    and j: "j < length ns0"
    and inv: "loopInv ns0 conns proc j st0 pre st"
    and c: "c \<in> set conns"
    and step: "depStep recur j c st = Some st'"
  shows "loopInv ns0 conns proc j st0 (pre @ [c]) st'"
proof (cases "inputNode c \<noteq> node_id (fst st ! j) \<or> findNodeById (fst st) (outputNode c) = None")
  case True
  then have "st' = st" using step by (auto simp: depStep_def split: if_splits)
  then show ?thesis using loopInv_skip[OF inv j True] by simp
next
  case False
  obtain ns dn where st: "st = (ns, dn)" by (cases st)
  from False obtain u where test: "inputNode c = node_id (ns ! j)"
    and found: "findNodeById ns (outputNode c) = Some u"
    by (auto simp: st)
  from step test found obtain ns1 dn1 where call: "recur u (ns, dn) = Some (ns1, dn1)"
    and st': "st' = (ns1[j := copyPinData (ns1 ! u) c (ns1 ! j)], dn1)"
    by (auto simp: depStep_def st split: option.splits)
  show ?thesis
    unfolding st' using loopInv_call[OF acyc rec j inv[unfolded st] c test found call] .
qed

lemma loopInv_loop:
  assumes acyc: "acyclic (edges conns)"
    and rec: "nodeSpec ns0 conns proc recur"
    and j: "j < length ns0"
  shows "loopInv ns0 conns proc j st0 pre st \<Longrightarrow> set cs \<subseteq> set conns \<Longrightarrow>
         forEachConn (depStep recur j) cs st = Some st' \<Longrightarrow>
         loopInv ns0 conns proc j st0 (pre @ cs) st'"
proof (induction cs arbitrary: pre st)
  case Nil
  then show ?case by simp
next
  case (Cons c cs)
  from Cons.prems(3) obtain st1 where s1: "depStep recur j c st = Some st1"
    and s2: "forEachConn (depStep recur j) cs st1 = Some st'"
    by (auto split: option.splits)
  have "loopInv ns0 conns proc j st0 (pre @ [c]) st1"
    using loopInv_step[OF acyc rec j Cons.prems(1) _ s1] Cons.prems(2) by simp
  from Cons.IH[OF this _ s2] Cons.prems(2) show ?case by simp
qed

section \<open>The traversal: one node and the whole pass\<close>

lemma upstreamsBefore_append:
  assumes "upstreamsBefore ns0 conns dn k"
  shows "upstreamsBefore ns0 conns (dn @ new) k"
  using assms unfolding upstreamsBefore_def by (blast intro: calledBefore_append)

lemma processNode_spec:
  assumes acyc: "acyclic (edges conns)" and pid: "preservesId proc"
  shows "nodeSpec ns0 conns proc (processNode d proc conns)"
proof (induction d)
  case 0
  show ?case by (simp add: nodeSpec_def)
next
  case (Suc d)
  show ?case
    unfolding nodeSpec_def
  proof (intro allI impI)
    fix j ns dn ns' dn'
    assume pi: "passInv ns0 conns proc (ns, dn)" and j: "j < length ns0"
      and fresh: "\<forall>k<length ns0. k \<notin> set dn \<longrightarrow> upOf ns0 conns k j \<longrightarrow> ns ! k = ns0 ! k"
      and run: "processNode (Suc d) proc conns j (ns, dn) = Some (ns', dn')"
    show "passInv ns0 conns proc (ns', dn') \<and> j \<in> set dn' \<and>
          (\<exists>new. dn' = dn @ new \<and> (\<forall>k\<in>set new. upOf ns0 conns k j) \<and>
                 (\<forall>k<length ns0. k \<notin> set new \<longrightarrow> ns' ! k = ns ! k))"
    proof (cases "j \<in> set dn")
      case True
      with run have "ns' = ns" "dn' = dn" by simp_all
      with pi True show ?thesis by simp
    next
      case False
      with run obtain ns1 dn1 where
        loop: "forEachConn (depStep (processNode d proc conns) j) conns (ns, dn) = Some (ns1, dn1)"
        and ns': "ns' = ns1[j := proc (ns1 ! j)]" and dn': "dn' = dn1 @ [j]"
        by (auto split: option.splits)
      have "ns ! j = ns0 ! j" using fresh j False upOf_refl by blast
      then have start: "loopInv ns0 conns proc j (ns, dn) [] (ns, dn)"
        using pi False fresh by (simp add: loopInv_def fillInputs_def)
      have inv: "loopInv ns0 conns proc j (ns, dn) conns (ns1, dn1)"
        using loopInv_loop[OF acyc Suc j start _ loop] by simp
      have pi1: "passInv ns0 conns proc (ns1, dn1)" using inv by (simp add: loopInv_def)
      have jn1: "j \<notin> set dn1" using inv by (simp add: loopInv_def)
      have fj: "ns1 ! j = fillInputs ns1 conns (ns0 ! j)" using inv by (simp add: loopInv_def)
      have ups: "\<And>c u. c \<in> set conns \<Longrightarrow> inputNode c = node_id (ns0 ! j) \<Longrightarrow>
               findNodeById ns0 (outputNode c) = Some u \<Longrightarrow> u \<in> set dn1"
        using inv by (simp add: loopInv_def)
      obtain new where new: "dn1 = dn @ new" "\<forall>k\<in>set new. upOf ns0 conns k j"
        "\<forall>k<length ns0. k \<notin> set new \<longrightarrow> k \<noteq> j \<longrightarrow> ns1 ! k = ns ! k"
        using inv by (auto simp: loopInv_def)
      have len1: "length ns1 = length ns0" using pi1 by (rule passInv_length)
      have ids1: "map node_id ns1 = map node_id ns0" using pi1 by (rule passInv_ids)
      have pi2: "passInv ns0 conns proc (ns', dn1)"
        unfolding ns' using pi1 jn1 pid by (intro passInv_update) (simp_all add: preservesId_def)
      have ids2: "map node_id ns' = map node_id ns0" using pi2 by (rule passInv_ids)
      have fill2: "fillInputs ns1 conns (ns0 ! j) = fillInputs ns' conns (ns0 ! j)"
      proof (rule fillInputs_cong)
        show "map node_id ns1 = map node_id ns'" using ids1 ids2 by simp
      next
        fix c u
        assume "c \<in> set conns" "inputNode c = node_id (ns0 ! j)"
          "findNodeById ns1 (outputNode c) = Some u"
        then have "u \<in> set dn1" using ups findNodeById_ids[OF ids1] by simp
        then have "u \<noteq> j" using jn1 by auto
        then show "ns1 ! u = ns' ! u" by (simp add: ns')
      qed
      have nodej: "ns' ! j = proc (fillInputs ns' conns (ns0 ! j))"
        using j len1 fj fill2 by (simp add: ns')
      have upsj: "upstreamsBefore ns0 conns (dn1 @ [j]) j"
        unfolding upstreamsBefore_def using ups jn1 by (blast intro: calledBefore_last)
      have "passInv ns0 conns proc (ns', dn1 @ [j])"
        unfolding passInv_def fst_conv snd_conv
      proof (intro conjI ballI)
        show "map node_id ns' = map node_id ns0" by (rule ids2)
        show "distinct (dn1 @ [j])" using pi1 jn1 by (simp add: passInv_def)
      next
        fix k assume "k \<in> set (dn1 @ [j])"
        then consider "k \<in> set dn1" | "k = j" by auto
        then show "k < length ns0" using pi1 j by cases (simp_all add: passInv_def)
      next
        fix k assume "k \<in> set (dn1 @ [j])"
        then consider "k \<in> set dn1" | "k = j" by auto
        then show "ns' ! k = proc (fillInputs ns' conns (ns0 ! k))"
          using pi2 nodej by cases (simp_all add: passInv_def)
      next
        fix k assume "k \<in> set (dn1 @ [j])"
        then consider "k \<in> set dn1" | "k = j" by auto
        then show "upstreamsBefore ns0 conns (dn1 @ [j]) k"
        proof cases
          case 1
          then have "upstreamsBefore ns0 conns dn1 k" using pi1 by (simp add: passInv_def)
          then show ?thesis by (rule upstreamsBefore_append)
        next
          case 2
          then show ?thesis using upsj by simp
        qed
      qed
      moreover have "\<exists>new'. dn' = dn @ new' \<and> (\<forall>k\<in>set new'. upOf ns0 conns k j) \<and>
                 (\<forall>k<length ns0. k \<notin> set new' \<longrightarrow> ns' ! k = ns ! k)"
      proof (intro exI[of _ "new @ [j]"] conjI)
        show "dn' = dn @ new @ [j]" using new(1) dn' by simp
        show "\<forall>k\<in>set (new @ [j]). upOf ns0 conns k j" using new(2) upOf_refl by auto
        show "\<forall>k<length ns0. k \<notin> set (new @ [j]) \<longrightarrow> ns' ! k = ns ! k"
          using new(3) by (auto simp: ns')
      qed
      ultimately show ?thesis by (simp add: dn')
    qed
  qed
qed

lemma processNode_topInv:
  assumes acyc: "acyclic (edges conns)" and pid: "preservesId proc"
    and inv: "topInv ns0 conns proc st" and j: "j < length ns0"
    and run: "processNode d proc conns j st = Some st'"
  shows "topInv ns0 conns proc st' \<and> insert j (set (snd st)) \<subseteq> set (snd st')"
proof -
  obtain ns dn where st: "st = (ns, dn)" by (cases st)
  obtain ns' dn' where st': "st' = (ns', dn')" by (cases st')
  have pi: "passInv ns0 conns proc (ns, dn)"
    and fresh: "\<forall>k<length ns0. k \<notin> set dn \<longrightarrow> ns ! k = ns0 ! k"
    using inv by (simp_all add: topInv_def st)
  from processNode_spec[OF acyc pid, of ns0 d] pi j fresh run
  have "passInv ns0 conns proc (ns', dn') \<and> j \<in> set dn' \<and>
        (\<exists>new. dn' = dn @ new \<and> (\<forall>k\<in>set new. upOf ns0 conns k j) \<and>
               (\<forall>k<length ns0. k \<notin> set new \<longrightarrow> ns' ! k = ns ! k))"
    unfolding nodeSpec_def st st' by blast
  then obtain new where pi': "passInv ns0 conns proc (ns', dn')" and jin: "j \<in> set dn'"
    and dn': "dn' = dn @ new" and same: "\<forall>k<length ns0. k \<notin> set new \<longrightarrow> ns' ! k = ns ! k"
    by blast
  have "\<forall>k<length ns0. k \<notin> set dn' \<longrightarrow> ns' ! k = ns0 ! k"
    using fresh same dn' by simp
  then show ?thesis using pi' jin dn' by (auto simp: topInv_def st st')
qed

lemma processAll_topInv:
  assumes acyc: "acyclic (edges conns)" and pid: "preservesId proc"
  shows "topInv ns0 conns proc st \<Longrightarrow> \<forall>k\<in>set ks. k < length ns0 \<Longrightarrow>
         processAll d proc conns ks st = Some st' \<Longrightarrow>
         topInv ns0 conns proc st' \<and> set ks \<union> set (snd st) \<subseteq> set (snd st')"
proof (induction ks arbitrary: st)
  case Nil
  then show ?case by simp
next
  case (Cons k ks)
  from Cons.prems(3) obtain st1 where s1: "processNode d proc conns k st = Some st1"
    and s2: "processAll d proc conns ks st1 = Some st'"
    by (auto split: option.splits)
  have 1: "topInv ns0 conns proc st1 \<and> insert k (set (snd st)) \<subseteq> set (snd st1)"
    using processNode_topInv[OF acyc pid Cons.prems(1) _ s1] Cons.prems(2) by simp
  have 2: "topInv ns0 conns proc st' \<and> set ks \<union> set (snd st1) \<subseteq> set (snd st')"
    using Cons.IH[OF _ _ s2] 1 Cons.prems(2) by simp
  from 1 2 show ?case by auto
qed

lemma runPass_result:
  assumes acyc: "acyclic (edges (pruned g))" and pid: "preservesId proc"
    and run: "runPass d proc g = Some (ns', order)"
  shows "passInv (nodes g) (pruned g) proc (ns', order) \<and> set order = {..<length (nodes g)}"
proof -
  have start: "topInv (nodes g) (pruned g) proc (nodes g, [])"
    by (simp add: topInv_def passInv_def)
  have "topInv (nodes g) (pruned g) proc (ns', order) \<and>
        set [0..<length (nodes g)] \<union> set (snd (nodes g, [])) \<subseteq> set (snd (ns', order))"
    using run unfolding runPass_def
    by (intro processAll_topInv[OF acyc pid start]) auto
  then have pi: "passInv (nodes g) (pruned g) proc (ns', order)"
    and sub: "{..<length (nodes g)} \<subseteq> set order"
    by (auto simp: topInv_def)
  have "set order \<subseteq> {..<length (nodes g)}"
    using pi by (auto simp: passInv_def)
  with pi sub show ?thesis by auto
qed

section \<open>Termination of the pass\<close>

lemma stepsKeep_sameId: "preservesId proc \<Longrightarrow> stepsKeep sameId proc conns"
  by (simp add: stepsKeep_def sameId_def preservesId_def)

lemma related_sameId: "related sameId ns ns' \<longleftrightarrow> map node_id ns' = map node_id ns"
  unfolding related_def sameId_def list_all2_conv_all_nth
  by (auto simp: list_eq_iff_nth_eq)

lemma processNode_ids:
  "preservesId proc \<Longrightarrow> processNode d proc conns j st = Some st' \<Longrightarrow>
   map node_id (fst st') = map node_id (fst st)"
  using processNode_related[OF stepsKeep_sameId] related_sameId by blast

lemma chainsWithin_up:
  assumes "chainsWithin conns v (Suc d)" "(w, v) \<in> edges conns"
  shows "chainsWithin conns w d"
  unfolding chainsWithin_def
proof (intro allI impI)
  fix p assume "isChain conns (w # p)"
  then have "isChain conns (v # w # p)" using assms(2) by simp
  then have "Suc (length (w # p)) \<le> Suc d" using assms(1) unfolding chainsWithin_def by blast
  then show "Suc (length p) \<le> d" by simp
qed

lemma forEachConn_returns:
  assumes pid: "preservesId proc"
    and rec: "\<And>u st. u < length ids \<Longrightarrow> map node_id (fst st) = ids \<Longrightarrow>
                chainsWithin conns (ids ! u) d \<Longrightarrow>
                \<exists>st'. processNode d proc conns u st = Some st'"
    and j: "j < length ids" and cw: "chainsWithin conns (ids ! j) (Suc d)"
  shows "set cs \<subseteq> set conns \<Longrightarrow> map node_id (fst st) = ids \<Longrightarrow>
         \<exists>st'. forEachConn (depStep (processNode d proc conns) j) cs st = Some st' \<and>
               map node_id (fst st') = ids"
proof (induction cs arbitrary: st)
  case Nil
  then show ?case by simp
next
  case (Cons c cs)
  obtain ns dn where st: "st = (ns, dn)" by (cases st)
  have ids: "map node_id ns = ids" using Cons.prems(2) by (simp add: st)
  have len: "length ns = length ids" using ids by (metis length_map)
  have step: "\<exists>st1. depStep (processNode d proc conns) j c st = Some st1 \<and>
                 map node_id (fst st1) = ids"
  proof (cases "inputNode c = node_id (ns ! j)")
    case False
    then show ?thesis using ids by (simp add: depStep_def st)
  next
    case True
    show ?thesis
    proof (cases "findNodeById ns (outputNode c)")
      case None
      then show ?thesis using True ids by (simp add: depStep_def st)
    next
      case (Some u)
      have u: "u < length ids" using findNodeById_Some[OF Some] len by simp
      have "map node_id ns ! u = node_id (ns ! u)" using u len by simp
      then have "ids ! u = node_id (ns ! u)" by (simp only: ids)
      then have idu: "ids ! u = outputNode c" using findNodeById_Some[OF Some] by simp
      have "map node_id ns ! j = node_id (ns ! j)" using j len by simp
      then have "ids ! j = node_id (ns ! j)" by (simp only: ids)
      then have idj: "ids ! j = inputNode c" using True by simp
      have "(ids ! u, ids ! j) \<in> edges conns"
        using Cons.prems(1) idu idj by (force simp: edges_def)
      then have "chainsWithin conns (ids ! u) d" using cw chainsWithin_up by blast
      then obtain st1 where r: "processNode d proc conns u (ns, dn) = Some st1"
        using rec[OF u, of "(ns, dn)"] ids by auto
      obtain ns1 dn1 where st1: "st1 = (ns1, dn1)" by (cases st1)
      have ids1: "map node_id ns1 = ids"
        using processNode_ids[OF pid r] ids by (simp add: st1)
      have "map node_id (ns1[j := copyPinData (ns1 ! u) c (ns1 ! j)]) = ids"
        using ids1 by (simp add: map_id_update)
      then show ?thesis using True Some r by (simp add: depStep_def st st1)
    qed
  qed
  then obtain st1 where s1: "depStep (processNode d proc conns) j c st = Some st1"
    and i1: "map node_id (fst st1) = ids" by blast
  from Cons.IH[OF _ i1] Cons.prems(1) obtain st' where
    "forEachConn (depStep (processNode d proc conns) j) cs st1 = Some st' \<and>
     map node_id (fst st') = ids" by auto
  then show ?case using s1 by simp
qed

lemma processNode_returns:
  assumes pid: "preservesId proc"
  shows "j < length ids \<Longrightarrow> map node_id (fst st) = ids \<Longrightarrow> chainsWithin conns (ids ! j) d \<Longrightarrow>
         \<exists>st'. processNode d proc conns j st = Some st'"
proof (induction d arbitrary: j st)
  case 0
  have "isChain conns [ids ! j]" by simp
  then show ?case using 0(3) unfolding chainsWithin_def by fastforce
next
  case (Suc d)
  show ?case
  proof (cases "j \<in> set (snd st)")
    case True
    then show ?thesis by simp
  next
    case False
    obtain st1 where "forEachConn (depStep (processNode d proc conns) j) conns st = Some st1"
      using forEachConn_returns[OF pid Suc.IH Suc.prems(1,3) _ Suc.prems(2), of conns]
      by blast
    then show ?thesis using False by (simp split: prod.splits)
  qed
qed

lemma processAll_returns:
  assumes pid: "preservesId proc"
    and cw: "\<And>v. chainsWithin conns v d"
  shows "\<forall>k\<in>set ks. k < length ids \<Longrightarrow> map node_id (fst st) = ids \<Longrightarrow>
         \<exists>st'. processAll d proc conns ks st = Some st'"
proof (induction ks arbitrary: st)
  case Nil
  then show ?case by simp
next
  case (Cons k ks)
  obtain st1 where s1: "processNode d proc conns k st = Some st1"
    using processNode_returns[OF pid _ Cons.prems(2) cw, of k] Cons.prems(1) by auto
  have "map node_id (fst st1) = ids"
    using processNode_ids[OF pid s1] Cons.prems(2) by simp
  from Cons.IH[OF _ this] Cons.prems(1) s1 show ?case by simp
qed

lemma runPass_returns:
  assumes pid: "preservesId proc"
    and bound: "\<And>p. isChain (pruned g) p \<Longrightarrow> length p \<le> d"
  shows "\<exists>st'. runPass d proc g = Some st'"
proof -
  have "\<And>v. chainsWithin (pruned g) v d"
    unfolding chainsWithin_def using bound by fastforce
  then show ?thesis
    unfolding runPass_def
    by (intro processAll_returns[OF pid, where ids = "map node_id (nodes g)"]) auto
qed

section \<open>Chains and cycles\<close>

lemma isChain_mono: "edges a \<subseteq> edges b \<Longrightarrow> isChain a p \<Longrightarrow> isChain b p"
  by (induction a p rule: isChain.induct) auto

lemma edges_pruned: "edges (pruned g) \<subseteq> edges (connections g)"
  by (auto simp: edges_def pruned_def)

lemma acyclic_pruned: "acyclic (edges (connections g)) \<Longrightarrow> acyclic (edges (pruned g))"
  by (rule acyclic_subset[OF _ edges_pruned])

lemma chain_reach:
  "isChain conns (v # p) \<Longrightarrow> w \<in> set p \<Longrightarrow> (w, v) \<in> (edges conns)\<^sup>+"
proof (induction p arbitrary: v)
  case Nil
  then show ?case by simp
next
  case (Cons x p)
  from Cons.prems(1) have e: "(x, v) \<in> edges conns" and ch: "isChain conns (x # p)" by simp_all
  show ?case
  proof (cases "w = x")
    case True
    then show ?thesis using e by blast
  next
    case False
    then have "w \<in> set p" using Cons.prems(2) by simp
    then have "(w, x) \<in> (edges conns)\<^sup>+" using Cons.IH[OF ch] by simp
    then show ?thesis using e by (meson trancl.trancl_into_trancl)
  qed
qed

lemma isChain_tail: "isChain conns (v # p) \<Longrightarrow> isChain conns p"
  by (cases p) simp_all

lemma chain_distinct:
  assumes "acyclic (edges conns)"
  shows "isChain conns p \<Longrightarrow> distinct p"
proof (induction p)
  case Nil
  show ?case by simp
next
  case (Cons v p)
  have "v \<notin> set p"
    using chain_reach[OF Cons.prems] assms by (auto simp: acyclic_def)
  then show ?case using Cons.IH[OF isChain_tail[OF Cons.prems]] by simp
qed

lemma chain_field:
  "isChain conns p \<Longrightarrow> 2 \<le> length p \<Longrightarrow> set p \<subseteq> Field (edges conns)"
proof (induction conns p rule: isChain.induct)
  case (3 conns v w p)
  have vw: "v \<in> Field (edges conns)" "w \<in> Field (edges conns)"
    using 3(2) by (auto simp: Field_def)
  show ?case
  proof (cases p)
    case Nil
    then show ?thesis using vw by simp
  next
    case (Cons x q)
    then have "set (w # p) \<subseteq> Field (edges conns)" using 3 by simp
    then show ?thesis using vw by simp
  qed
qed simp_all

lemma finite_edges: "finite (edges conns)"
  by (simp add: edges_def)

lemma chain_bound:
  assumes "acyclic (edges conns)" "isChain conns p"
  shows "length p \<le> Suc (card (Field (edges conns)))"
proof (cases "2 \<le> length p")
  case True
  have "length p = card (set p)"
    using chain_distinct[OF assms] by (simp add: distinct_card)
  also have "\<dots> \<le> card (Field (edges conns))"
    using chain_field[OF assms(2) True] finite_edges by (intro card_mono) (auto simp: finite_Field)
  finally show ?thesis by simp
next
  case False
  then show ?thesis by simp
qed

lemma longestChain_exists:
  assumes "acyclic (edges conns)"
  shows "\<exists>L. longestChain conns L"
proof -
  let ?S = "{n. \<exists>p. isChain conns p \<and> length p = n}"
  have sub: "?S \<subseteq> {..Suc (card (Field (edges conns)))}"
    using chain_bound[OF assms] by auto
  have fin: "finite ?S" using sub by (rule finite_subset) simp
  have "isChain conns []" by simp
  then have ne: "?S \<noteq> {}" by blast
  have "Max ?S \<in> ?S" using fin ne by (rule Max_in)
  moreover have "\<forall>n\<in>?S. n \<le> Max ?S" using fin by simp
  ultimately show ?thesis unfolding longestChain_def by blast
qed

lemma cycle_pred:
  assumes "onCycle conns v"
  shows "\<exists>c\<in>set conns. inputNode c = v \<and> onCycle conns (outputNode c)"
proof -
  from assms obtain w where vw: "(v, w) \<in> (edges conns)\<^sup>*" and wv: "(w, v) \<in> edges conns"
    unfolding onCycle_def by (meson tranclD2)
  then have "(w, w) \<in> (edges conns)\<^sup>+" by (meson rtrancl_into_trancl2)
  moreover from wv obtain c where "c \<in> set conns" "outputNode c = w" "inputNode c = v"
    by (auto simp: edges_def)
  ultimately show ?thesis unfolding onCycle_def by blast
qed

lemma depStep_offCycle:
  assumes pid: "preservesId proc"
    and valid: "\<forall>c\<in>set conns. findNodeById ns0 (outputNode c) \<noteq> None"
    and rec: "\<And>u st st'. processNode d proc conns u st = Some st' \<Longrightarrow> u < length ns0 \<Longrightarrow>
                offCycle ns0 conns st \<Longrightarrow>
                offCycle ns0 conns st' \<and> \<not> onCycle conns (node_id (ns0 ! u))"
    and j: "j < length ns0"
    and c: "c \<in> set conns"
    and inv: "offCycle ns0 conns st"
    and step: "depStep (processNode d proc conns) j c st = Some st'"
  shows "offCycle ns0 conns st' \<and>
         (inputNode c = node_id (ns0 ! j) \<longrightarrow> \<not> onCycle conns (outputNode c))"
proof -
  obtain ns dn where st: "st = (ns, dn)" by (cases st)
  have ids: "map node_id ns = map node_id ns0" using inv by (simp add: offCycle_def st)
  have len: "length ns = length ns0" using ids by (metis length_map)
  have idj: "node_id (ns ! j) = node_id (ns0 ! j)" using ids j len by (metis nth_map)
  show ?thesis
  proof (cases "inputNode c = node_id (ns0 ! j)")
    case False
    then show ?thesis using step inv idj by (simp add: depStep_def st)
  next
    case True
    from valid c obtain u where f0: "findNodeById ns0 (outputNode c) = Some u" by auto
    then have f: "findNodeById ns (outputNode c) = Some u"
      using findNodeById_ids[OF ids] by simp
    have u: "u < length ns0" and idu: "node_id (ns0 ! u) = outputNode c"
      using findNodeById_Some[OF f0] by simp_all
    from step True f idj obtain ns1 dn1 where
      call: "processNode d proc conns u (ns, dn) = Some (ns1, dn1)"
      and st': "st' = (ns1[j := copyPinData (ns1 ! u) c (ns1 ! j)], dn1)"
      by (auto simp: depStep_def st split: option.splits)
    have r: "offCycle ns0 conns (ns1, dn1) \<and> \<not> onCycle conns (node_id (ns0 ! u))"
      using rec[OF call u] inv st by simp
    then have "map node_id (ns1[j := copyPinData (ns1 ! u) c (ns1 ! j)]) = map node_id ns0"
      by (simp add: offCycle_def map_id_update)
    then show ?thesis using r idu by (simp add: offCycle_def st')
  qed
qed

lemma forEachConn_offCycle:
  assumes pid: "preservesId proc"
    and valid: "\<forall>c\<in>set conns. findNodeById ns0 (outputNode c) \<noteq> None"
    and rec: "\<And>u st st'. processNode d proc conns u st = Some st' \<Longrightarrow> u < length ns0 \<Longrightarrow>
                offCycle ns0 conns st \<Longrightarrow>
                offCycle ns0 conns st' \<and> \<not> onCycle conns (node_id (ns0 ! u))"
    and j: "j < length ns0"
  shows "set cs \<subseteq> set conns \<Longrightarrow> offCycle ns0 conns st \<Longrightarrow>
         forEachConn (depStep (processNode d proc conns) j) cs st = Some st' \<Longrightarrow>
         offCycle ns0 conns st' \<and>
         (\<forall>c\<in>set cs. inputNode c = node_id (ns0 ! j) \<longrightarrow> \<not> onCycle conns (outputNode c))"
proof (induction cs arbitrary: st)
  case Nil
  then show ?case by simp
next
  case (Cons c cs)
  from Cons.prems(3) obtain st1 where s1: "depStep (processNode d proc conns) j c st = Some st1"
    and s2: "forEachConn (depStep (processNode d proc conns) j) cs st1 = Some st'"
    by (auto split: option.splits)
  have 1: "offCycle ns0 conns st1 \<and>
         (inputNode c = node_id (ns0 ! j) \<longrightarrow> \<not> onCycle conns (outputNode c))"
    using depStep_offCycle[OF pid valid rec j _ Cons.prems(2) s1] Cons.prems(1) by simp
  have 2: "offCycle ns0 conns st' \<and>
         (\<forall>c\<in>set cs. inputNode c = node_id (ns0 ! j) \<longrightarrow> \<not> onCycle conns (outputNode c))"
    using Cons.IH[OF _ _ s2] 1 Cons.prems(1) by simp
  from 1 2 show ?case by simp
qed

lemma processNode_offCycle:
  assumes pid: "preservesId proc"
    and valid: "\<forall>c\<in>set conns. findNodeById ns0 (outputNode c) \<noteq> None"
  shows "processNode d proc conns j st = Some st' \<Longrightarrow> j < length ns0 \<Longrightarrow>
         offCycle ns0 conns st \<Longrightarrow>
         offCycle ns0 conns st' \<and> \<not> onCycle conns (node_id (ns0 ! j))"
proof (induction d arbitrary: j st st')
  case 0
  then show ?case by simp
next
  case (Suc d)
  show ?case
  proof (cases "j \<in> set (snd st)")
    case True
    then have "st' = st" using Suc.prems(1) by simp
    then show ?thesis using Suc.prems(3) True by (auto simp: offCycle_def)
  next
    case False
    with Suc.prems(1) obtain ns1 dn1 where
      loop: "forEachConn (depStep (processNode d proc conns) j) conns st = Some (ns1, dn1)"
      and st': "st' = (ns1[j := proc (ns1 ! j)], dn1 @ [j])"
      by (auto split: option.splits)
    have l: "offCycle ns0 conns (ns1, dn1) \<and>
         (\<forall>c\<in>set conns. inputNode c = node_id (ns0 ! j) \<longrightarrow> \<not> onCycle conns (outputNode c))"
      using forEachConn_offCycle[OF pid valid Suc.IH Suc.prems(2) _ Suc.prems(3) loop] by simp
    then have nc: "\<not> onCycle conns (node_id (ns0 ! j))"
      using cycle_pred by blast
    have "map node_id (ns1[j := proc (ns1 ! j)]) = map node_id ns0"
      using l pid by (simp add: offCycle_def map_id_update preservesId_def)
    then show ?thesis using l nc by (simp add: offCycle_def st')
  qed
qed

lemma processAll_offCycle:
  assumes pid: "preservesId proc"
    and valid: "\<forall>c\<in>set conns. findNodeById ns0 (outputNode c) \<noteq> None"
  shows "processAll d proc conns ks st = Some st' \<Longrightarrow> \<forall>k\<in>set ks. k < length ns0 \<Longrightarrow>
         offCycle ns0 conns st \<Longrightarrow>
         offCycle ns0 conns st' \<and> (\<forall>k\<in>set ks. \<not> onCycle conns (node_id (ns0 ! k)))"
proof (induction ks arbitrary: st)
  case Nil
  then show ?case by simp
next
  case (Cons k ks)
  from Cons.prems(1) obtain st1 where s1: "processNode d proc conns k st = Some st1"
    and s2: "processAll d proc conns ks st1 = Some st'"
    by (auto split: option.splits)
  have 1: "offCycle ns0 conns st1 \<and> \<not> onCycle conns (node_id (ns0 ! k))"
    using processNode_offCycle[OF pid valid s1 _ Cons.prems(3)] Cons.prems(2) by simp
  have 2: "offCycle ns0 conns st' \<and> (\<forall>k\<in>set ks. \<not> onCycle conns (node_id (ns0 ! k)))"
    using Cons.IH[OF s2] 1 Cons.prems(2) by simp
  from 1 2 show ?case by simp
qed

lemma runPass_cyclic:
  assumes pid: "preservesId proc" and cyc: "\<not> acyclic (edges (pruned g))"
  shows "runPass d proc g = None"
proof (rule ccontr)
  assume "runPass d proc g \<noteq> None"
  then obtain st' where run: "runPass d proc g = Some st'" by auto
  have valid: "\<forall>c\<in>set (pruned g). findNodeById (nodes g) (outputNode c) \<noteq> None"
    and validi: "\<forall>c\<in>set (pruned g). findNodeById (nodes g) (inputNode c) \<noteq> None"
    by (auto simp: pruned_def isConnectionValid_def)
  have "\<forall>k\<in>set [0..<length (nodes g)]. \<not> onCycle (pruned g) (node_id (nodes g ! k))"
    using processAll_offCycle[OF pid valid run[unfolded runPass_def]]
    by (simp add: offCycle_def)
  then have none: "\<And>k. k < length (nodes g) \<Longrightarrow> \<not> onCycle (pruned g) (node_id (nodes g ! k))"
    by simp
  from cyc obtain v where v: "onCycle (pruned g) v"
    by (auto simp: acyclic_def onCycle_def)
  then obtain c where "c \<in> set (pruned g)" "inputNode c = v"
    using cycle_pred by blast
  then obtain k where "findNodeById (nodes g) v = Some k" using validi by auto
  then have "k < length (nodes g)" "node_id (nodes g ! k) = v"
    by (simp_all add: findNodeById_Some)
  with none v show False by blast
qed

section \<open>Order and termination of the pass\<close>

lemma acyclic_none: "acyclic ({} :: (int \<times> int) set)"
  by (simp add: acyclic_def)

lemma demoProc_preservesId: "preservesId demoProc"
  by (simp add: preservesId_def demoProc_def)

lemma demoChain_acyclic: "acyclic (edges (connections demoChain))"
  by (simp add: demoChain_def edges_def demoLink_def acyclic_insert rtrancl_insert acyclic_none)

lemma demoCycle_cyclic: "\<not> acyclic (edges (pruned demoCycle))"
  by (simp add: pruned_def isConnectionValid_def demoNode_def demoCycle_def edges_def
      demoLink_def acyclic_insert rtrancl_insert)

lemma demoChain_run:
  "runPass 3 demoProc demoChain =
     Some ([demoProc ((demoNode 0 3)\<lparr>inputs := [(demoPin 1)\<lparr>data := [2, 4, 6]\<rparr>]\<rparr>),
            demoProc ((demoNode 3 2)\<lparr>inputs := [(demoPin 4)\<lparr>data := [1, 2, 3]\<rparr>]\<rparr>),
            demoProc (demoNode 6 0)], [2, 1, 0])"
  by code_simp



text \<open>
  C2. Let \<open>process()\<close> keep node ids. If the connections are acyclic there is a longest
  dependency chain, of \<open>L\<close> nodes, and a pass returns within \<open>L\<close> nested calls of
  \<open>processNode\<close> (and within any larger depth). If the connections that survive pruning
  contain a cycle, the pass returns within no depth: only the absence of cycles ends the
  recursion.
\<close>

theorem pass_terminates_within_longest_chain:
  assumes "preservesId proc"
  shows "(acyclic (edges (connections g)) \<longrightarrow>
            (\<exists>L. longestChain (connections g) L \<and>
                 (\<forall>d\<ge>L. \<exists>g'. processGraph d proc g = Some g'))) \<and>
         (\<not> acyclic (edges (pruned g)) \<longrightarrow> (\<forall>d. processGraph d proc g = None))"
proof (intro conjI impI allI)
  assume ac: "acyclic (edges (connections g))"
  obtain L where L: "longestChain (connections g) L" using longestChain_exists[OF ac] by blast
  have "\<exists>g'. processGraph d proc g = Some g'" if "L \<le> d" for d
  proof -
    have "\<And>p. isChain (pruned g) p \<Longrightarrow> length p \<le> d"
      using L that isChain_mono[OF edges_pruned] unfolding longestChain_def
      by (meson le_trans)
    from runPass_returns[OF assms this]
    show ?thesis by (auto simp: processGraph_def split: option.splits)
  qed
  with L show "\<exists>L. longestChain (connections g) L \<and>
                 (\<forall>d\<ge>L. \<exists>g'. processGraph d proc g = Some g')" by blast
next
  fix d
  assume "\<not> acyclic (edges (pruned g))"
  from runPass_cyclic[OF assms this]
  show "processGraph d proc g = None" by (simp add: processGraph_def)
qed

theorem pass_terminates_within_longest_chain_witness:
  "preservesId demoProc \<and> acyclic (edges (connections demoChain)) \<and>
   (\<exists>L. longestChain (connections demoChain) L \<and>
        (\<forall>d\<ge>L. \<exists>g'. processGraph d demoProc demoChain = Some g')) \<and>
   runPass 3 demoProc demoChain \<noteq> None \<and> runPass 2 demoProc demoChain = None \<and>
   \<not> acyclic (edges (pruned demoCycle)) \<and> (\<forall>d. processGraph d demoProc demoCycle = None)"
proof -
  have "runPass 3 demoProc demoChain \<noteq> None" by (simp add: demoChain_run)
  moreover have "runPass 2 demoProc demoChain = None" by code_simp
  ultimately show ?thesis
    using pass_terminates_within_longest_chain[OF demoProc_preservesId, of demoChain]
      pass_terminates_within_longest_chain[OF demoProc_preservesId, of demoCycle]
      demoProc_preservesId demoChain_acyclic demoCycle_cyclic
    by blast
qed

section \<open>What a pass leaves unchanged\<close>

lemma findPinIndex_found:
  "0 \<le> findPinIndex ps x \<Longrightarrow>
   nat (findPinIndex ps x) < length ps \<and> pin_id (ps ! nat (findPinIndex ps x)) = x"
proof (induction ps)
  case Nil
  then show ?case by simp
next
  case (Cons p ps)
  show ?case
  proof (cases "pin_id p = x")
    case True
    then show ?thesis by simp
  next
    case False
    with Cons.prems have r: "0 \<le> findPinIndex ps x"
      by (simp add: Let_def split: if_splits)
    with False Cons.IH show ?thesis
      by (simp add: Let_def nat_add_distrib)
  qed
qed

lemma pinShape_data [simp]: "pinShape (p\<lparr>data := d\<rparr>) = pinShape p"
  by (simp add: pinShape_def)

lemma copyPinData_cases:
  "copyPinData m c n = n \<or>
   (\<exists>i d. i < length (inputs n) \<and> pin_id (inputs n ! i) = inputPin c \<and> d \<noteq> [] \<and>
      copyPinData m c n = n\<lparr>inputs := (inputs n)[i := (inputs n ! i)\<lparr>data := d\<rparr>]\<rparr>)"
proof (cases "0 \<le> findPinIndex (outputs m) (outputPin c) \<and> 0 \<le> findPinIndex (inputs n) (inputPin c)
    \<and> data (outputs m ! nat (findPinIndex (outputs m) (outputPin c))) \<noteq> []")
  case True
  then show ?thesis
    using findPinIndex_found[of "inputs n" "inputPin c"]
    by (auto simp: copyPinData_def Let_def)
next
  case False
  then show ?thesis by (auto simp: copyPinData_def Let_def)
qed

lemma passFrame_refl: "passFrame n n"
  by (simp add: passFrame_def list_all2_same)

lemma passFrame_trans:
  assumes "passFrame a b" "passFrame b c"
  shows "passFrame a c"
proof -
  have ab: "list_all2 (\<lambda>p q. data q = data p \<or> data q \<noteq> []) (inputs a) (inputs b)"
    and bc: "list_all2 (\<lambda>p q. data q = data p \<or> data q \<noteq> []) (inputs b) (inputs c)"
    using assms by (simp_all add: passFrame_def)
  have "list_all2 (\<lambda>p q. data q = data p \<or> data q \<noteq> []) (inputs a) (inputs c)"
    by (rule list_all2_trans[OF _ ab bc]) auto
  then show ?thesis using assms by (simp add: passFrame_def)
qed

lemma passFrame_write:
  assumes "i < length (inputs n)" "d \<noteq> []"
  shows "passFrame n (n\<lparr>inputs := (inputs n)[i := (inputs n ! i)\<lparr>data := d\<rparr>]\<rparr>)"
proof -
  have "map pinShape ((inputs n)[i := (inputs n ! i)\<lparr>data := d\<rparr>]) = map pinShape (inputs n)"
    by (simp add: map_update list_update_same_conv assms(1))
  moreover have "list_all2 (\<lambda>p q. data q = data p \<or> data q \<noteq> []) (inputs n)
                   ((inputs n)[i := (inputs n ! i)\<lparr>data := d\<rparr>])"
    unfolding list_all2_conv_all_nth
  proof (intro conjI allI impI)
    show "length (inputs n) = length ((inputs n)[i := (inputs n ! i)\<lparr>data := d\<rparr>])" by simp
  next
    fix k assume "k < length (inputs n)"
    then show "data ((inputs n)[i := (inputs n ! i)\<lparr>data := d\<rparr>] ! k) = data (inputs n ! k) \<or>
               data ((inputs n)[i := (inputs n ! i)\<lparr>data := d\<rparr>] ! k) \<noteq> []"
      using assms by (cases "k = i") simp_all
  qed
  ultimately show ?thesis by (simp add: passFrame_def)
qed

lemma passFrame_copy: "passFrame n (copyPinData m c n)"
proof -
  from copyPinData_cases[of m c n] show ?thesis
  proof
    assume "copyPinData m c n = n"
    then show ?thesis by (simp add: passFrame_refl)
  next
    assume "\<exists>i d. i < length (inputs n) \<and> pin_id (inputs n ! i) = inputPin c \<and> d \<noteq> [] \<and>
      copyPinData m c n = n\<lparr>inputs := (inputs n)[i := (inputs n ! i)\<lparr>data := d\<rparr>]\<rparr>"
    then obtain i d where "i < length (inputs n)" "d \<noteq> []"
      "copyPinData m c n = n\<lparr>inputs := (inputs n)[i := (inputs n ! i)\<lparr>data := d\<rparr>]\<rparr>"
      by blast
    then show ?thesis using passFrame_write[of i n d] by simp
  qed
qed

lemma stepsKeep_passFrame:
  assumes "processContract proc"
  shows "stepsKeep passFrame proc conns"
  unfolding stepsKeep_def
proof (intro conjI allI impI ballI)
  show "\<And>n. passFrame n n" by (rule passFrame_refl)
  show "\<And>a b c. passFrame a b \<Longrightarrow> passFrame b c \<Longrightarrow> passFrame a c" by (rule passFrame_trans)
  show "\<And>a b. passFrame a b \<Longrightarrow> node_id b = node_id a" by (simp add: passFrame_def)
  show "\<And>n. passFrame n (proc n)"
    using assms by (simp add: passFrame_def processContract_def list_all2_same)
  show "\<And>c m n. passFrame n (copyPinData m c n)" by (rule passFrame_copy)
qed

lemma processContract_preservesId: "processContract proc \<Longrightarrow> preservesId proc"
  by (simp add: processContract_def preservesId_def)

lemma demoProc_contract: "processContract demoProc"
  by (simp add: processContract_def demoProc_def pinShape_def o_def)

text \<open>
  C9. Let \<open>process()\<close> write only its node's output buffers and internal state. A pass
  that returns leaves the number and order of the nodes, every node id and name, every
  pin id, pin name and \<open>connected\<close> flag, the id counter and the selection as they were;
  the connection list becomes the sublist of its valid entries (nothing is added); an
  input buffer is either left as it was or overwritten by a non-empty buffer.
\<close>

theorem pass_frame:
  assumes "processContract proc" and "processGraph d proc g = Some g'"
  shows "length (nodes g') = length (nodes g) \<and>
         (\<forall>k<length (nodes g). passFrame (nodes g ! k) (nodes g' ! k)) \<and>
         currentId g' = currentId g \<and> selectedNode g' = selectedNode g \<and>
         connections g' = filter (isConnectionValid (nodes g)) (connections g)"
proof -
  have "related passFrame (nodes g) (nodes g') \<and> connections g' = pruned g \<and>
         currentId g' = currentId g \<and> selectedNode g' = selectedNode g"
    using processGraph_related[OF stepsKeep_passFrame[OF assms(1)] assms(2)] .
  then show ?thesis
    by (simp add: related_def list_all2_conv_all_nth pruned_def)
qed

theorem pass_frame_witness:
  "processContract demoProc \<and>
   (\<exists>g'. processGraph 3 demoProc demoChain = Some g' \<and>
      length (nodes g') = length (nodes demoChain) \<and>
      passFrame (nodes demoChain ! 0) (nodes g' ! 0) \<and>
      data (hd (inputs (nodes g' ! 0))) = [2, 4, 6] \<and>
      currentId g' = currentId demoChain \<and> selectedNode g' = selectedNode demoChain \<and>
      connections g' = connections demoChain)"
proof -
  obtain g' where pg: "processGraph 3 demoProc demoChain = Some g'"
    and g': "g' = demoChain\<lparr>nodes := fst (the (runPass 3 demoProc demoChain)),
                connections := pruned demoChain\<rparr>"
    by (simp add: processGraph_def demoChain_run)
  have 0: "(0::nat) < length (nodes demoChain)" by (simp add: demoChain_def)
  have c: "filter (isConnectionValid (nodes demoChain)) (connections demoChain) = connections demoChain"
    by (simp add: demoChain_def isConnectionValid_def demoNode_def demoLink_def)
  have d: "data (hd (inputs (nodes g' ! 0))) = [2, 4, 6]"
    by (simp add: g' demoChain_run demoProc_def demoNode_def demoPin_def)
  from pass_frame[OF demoProc_contract pg] 0 c d pg demoProc_contract
  show ?thesis by auto
qed

section \<open>Disconnecting a connection\<close>

lemma deleteConnection_inrange:
  assumes "0 \<le> i" "i < int (length (connections g))"
  shows "deleteConnection d proc i g =
           processGraph d proc
             (g\<lparr>nodes := clearedPins (nodes g) (connections g ! nat i),
                connections := withoutConn (nat i) (connections g)\<rparr>)"
  using assms by (simp add: deleteConnection_def clearedPins_def withoutConn_def Let_def)

lemma clearedPins_ids: "map node_id (clearedPins ns conn) = map node_id ns"
proof -
  let ?ns1 = "(case findNodeById ns (inputNode conn) of
                   None \<Rightarrow> ns
                 | Some k \<Rightarrow> ns[k := (ns ! k)
                     \<lparr>inputs := map (clearInputPin (inputPin conn)) (inputs (ns ! k))\<rparr>])"
  have 1: "map node_id ?ns1 = map node_id ns"
    by (simp add: map_id_update split: option.splits)
  have "map node_id (clearedPins ns conn) = map node_id ?ns1"
    by (simp add: clearedPins_def Let_def map_id_update split: option.splits)
  with 1 show ?thesis by simp
qed

lemma clearedPins_input:
  assumes f: "findNodeById ns (inputNode conn) = Some k"
    and p: "p \<in> set (inputs (clearedPins ns conn ! k))" "pin_id p = inputPin conn"
  shows "data p = [] \<and> \<not> connected p"
proof -
  let ?n1 = "(ns ! k)\<lparr>inputs := map (clearInputPin (inputPin conn)) (inputs (ns ! k))\<rparr>"
  let ?ns1 = "ns[k := ?n1]"
  have k: "k < length ns" using findNodeById_Some[OF f] by simp
  have "inputs (clearedPins ns conn ! k) = map (clearInputPin (inputPin conn)) (inputs (ns ! k))"
  proof (cases "findNodeById ?ns1 (outputNode conn)")
    case None
    then show ?thesis using f k by (simp add: clearedPins_def)
  next
    case (Some k')
    then show ?thesis using f k by (cases "k' = k") (simp_all add: clearedPins_def)
  qed
  with p show ?thesis by (auto simp: clearInputPin_def split: if_splits)
qed

lemma clearedPins_output:
  assumes f: "findNodeById ns (outputNode conn) = Some k"
    and p: "p \<in> set (outputs (clearedPins ns conn ! k))" "pin_id p = outputPin conn"
  shows "\<not> connected p"
proof -
  let ?ns1 = "(case findNodeById ns (inputNode conn) of
                   None \<Rightarrow> ns
                 | Some k \<Rightarrow> ns[k := (ns ! k)
                     \<lparr>inputs := map (clearInputPin (inputPin conn)) (inputs (ns ! k))\<rparr>])"
  have ids: "map node_id ?ns1 = map node_id ns"
    by (simp add: map_id_update split: option.splits)
  have f1: "findNodeById ?ns1 (outputNode conn) = Some k"
    using f findNodeById_ids[OF ids] by simp
  have k: "k < length ?ns1" using findNodeById_Some[OF f1] by simp
  have "outputs (clearedPins ns conn ! k) = map (clearOutputPin (outputPin conn)) (outputs (?ns1 ! k))"
    using f1 k unfolding clearedPins_def Let_def by simp
  with p show ?thesis by (auto simp: clearOutputPin_def split: if_splits)
qed

lemma keepsPin_refl: "keepsPin X P n n"
  by (simp add: keepsPin_def passFrame_refl list_all2_same)

lemma keepsPin_trans:
  assumes ab: "keepsPin X P a b" and bc: "keepsPin X P b c"
  shows "keepsPin X P a c"
proof -
  have pf: "passFrame a c" using ab bc passFrame_trans by (auto simp: keepsPin_def)
  have ida: "node_id b = node_id a" and shape: "map pinShape (inputs b) = map pinShape (inputs a)"
    using ab by (simp_all add: keepsPin_def passFrame_def)
  have "list_all2 (\<lambda>p q. pin_id p = P \<longrightarrow> data q = data p) (inputs a) (inputs c)"
    if X: "node_id a = X"
  proof -
    have 1: "list_all2 (\<lambda>p q. pin_id p = P \<longrightarrow> data q = data p) (inputs a) (inputs b)"
      and 2: "list_all2 (\<lambda>p q. pin_id p = P \<longrightarrow> data q = data p) (inputs b) (inputs c)"
      using ab bc X ida by (simp_all add: keepsPin_def)
    have len: "length (inputs b) = length (inputs a)" using shape by (metis length_map)
    have pid: "\<And>i. i < length (inputs a) \<Longrightarrow> pin_id (inputs b ! i) = pin_id (inputs a ! i)"
    proof -
      fix i assume i: "i < length (inputs a)"
      have "map pinShape (inputs b) ! i = map pinShape (inputs a) ! i" using shape by simp
      then show "pin_id (inputs b ! i) = pin_id (inputs a ! i)"
        using i len by (simp add: pinShape_def)
    qed
    show ?thesis
      using 1 2 pid len unfolding list_all2_conv_all_nth by auto
  qed
  with pf show ?thesis by (simp add: keepsPin_def)
qed

lemma keepsPin_copy:
  assumes "\<not> (inputNode c = X \<and> inputPin c = P)" "inputNode c = node_id n"
  shows "keepsPin X P n (copyPinData m c n)"
proof -
  from copyPinData_cases[of m c n] show ?thesis
  proof
    assume "copyPinData m c n = n"
    then show ?thesis by (simp add: keepsPin_refl)
  next
    assume "\<exists>i d. i < length (inputs n) \<and> pin_id (inputs n ! i) = inputPin c \<and> d \<noteq> [] \<and>
      copyPinData m c n = n\<lparr>inputs := (inputs n)[i := (inputs n ! i)\<lparr>data := d\<rparr>]\<rparr>"
    then obtain i d where i: "i < length (inputs n)" and pi: "pin_id (inputs n ! i) = inputPin c"
      and eq: "copyPinData m c n = n\<lparr>inputs := (inputs n)[i := (inputs n ! i)\<lparr>data := d\<rparr>]\<rparr>"
      by blast
    have "list_all2 (\<lambda>p q. pin_id p = P \<longrightarrow> data q = data p) (inputs n)
            ((inputs n)[i := (inputs n ! i)\<lparr>data := d\<rparr>])"
      if "node_id n = X"
      unfolding list_all2_conv_all_nth
    proof (intro conjI allI impI)
      show "length (inputs n) = length ((inputs n)[i := (inputs n ! i)\<lparr>data := d\<rparr>])" by simp
    next
      fix k assume k: "k < length (inputs n)" and kp: "pin_id (inputs n ! k) = P"
      have "k \<noteq> i" using assms that pi kp by auto
      then show "data ((inputs n)[i := (inputs n ! i)\<lparr>data := d\<rparr>] ! k) = data (inputs n ! k)"
        by simp
    qed
    then show ?thesis using passFrame_copy[of n m c] eq by (simp add: keepsPin_def)
  qed
qed

lemma stepsKeep_keepsPin:
  assumes pc: "processContract proc"
    and nofeed: "\<forall>c\<in>set conns. \<not> (inputNode c = X \<and> inputPin c = P)"
  shows "stepsKeep (keepsPin X P) proc conns"
  unfolding stepsKeep_def
proof (intro conjI allI impI ballI)
  show "\<And>n. keepsPin X P n n" by (rule keepsPin_refl)
  show "\<And>a b c. keepsPin X P a b \<Longrightarrow> keepsPin X P b c \<Longrightarrow> keepsPin X P a c"
    by (rule keepsPin_trans)
  show "\<And>a b. keepsPin X P a b \<Longrightarrow> node_id b = node_id a"
    by (simp add: keepsPin_def passFrame_def)
  show "\<And>n. keepsPin X P n (proc n)"
    using pc by (simp add: keepsPin_def passFrame_def processContract_def list_all2_same)
  show "\<And>c m n. c \<in> set conns \<Longrightarrow> inputNode c = node_id n \<Longrightarrow> keepsPin X P n (copyPinData m c n)"
    using nofeed keepsPin_copy by blast
qed

lemma shape_flag:
  assumes "map pinShape ps' = map pinShape ps"
    and "\<forall>p\<in>set ps. pin_id p = P \<longrightarrow> \<not> connected p"
    and "q \<in> set ps'" "pin_id q = P"
  shows "\<not> connected q"
proof -
  have "pinShape q \<in> set (map pinShape ps)" using assms(1,3) by (metis image_eqI set_map)
  then obtain p where "p \<in> set ps" "pinShape p = pinShape q" by auto
  then show ?thesis using assms(2,4) by (auto simp: pinShape_def)
qed

lemma kept_data:
  assumes shape: "map pinShape ps' = map pinShape ps"
    and kept: "list_all2 (\<lambda>p q. pin_id p = P \<longrightarrow> data q = data p) ps ps'"
    and empty: "\<forall>p\<in>set ps. pin_id p = P \<longrightarrow> data p = []"
    and q: "q \<in> set ps'" "pin_id q = P"
  shows "data q = []"
proof -
  from q(1) obtain i where i: "i < length ps'" "ps' ! i = q" by (auto simp: in_set_conv_nth)
  have len: "length ps' = length ps" using shape by (metis length_map)
  have "map pinShape ps' ! i = map pinShape ps ! i" using shape by simp
  then have "pin_id (ps ! i) = P" using i len q(2) by (simp add: pinShape_def)
  moreover have "data (ps' ! i) = data (ps ! i)" if "pin_id (ps ! i) = P"
    using kept that i(1) len by (simp add: list_all2_conv_all_nth)
  ultimately have "data q = data (ps ! i)" using i(2) by simp
  moreover have "ps ! i \<in> set ps" using i(1) len by simp
  ultimately show ?thesis using empty \<open>pin_id (ps ! i) = P\<close> by simp
qed

lemma deleteConnection_effect:
  assumes pc: "processContract proc"
    and i: "0 \<le> i" "i < int (length (connections g))"
    and run: "deleteConnection d proc i g = Some g'"
  shows "connections g' =
           filter (isConnectionValid (nodes g)) (withoutConn (nat i) (connections g))"
    and "related passFrame (clearedPins (nodes g) (connections g ! nat i)) (nodes g')"
    and "\<forall>c\<in>set (connections g'). \<not> (inputNode c = X \<and> inputPin c = P) \<Longrightarrow>
         related (keepsPin X P) (clearedPins (nodes g) (connections g ! nat i)) (nodes g')"
proof -
  let ?conn = "connections g ! nat i"
  let ?g1 = "g\<lparr>nodes := clearedPins (nodes g) ?conn,
                connections := withoutConn (nat i) (connections g)\<rparr>"
  have pg: "processGraph d proc ?g1 = Some g'"
    using run deleteConnection_inrange[OF i] by simp
  have valid: "isConnectionValid (clearedPins (nodes g) ?conn) = isConnectionValid (nodes g)"
    using findNodeById_ids[OF clearedPins_ids[of "nodes g" ?conn]]
    by (auto simp: isConnectionValid_def fun_eq_iff)
  have pr: "pruned ?g1 = filter (isConnectionValid (nodes g)) (withoutConn (nat i) (connections g))"
    by (simp add: pruned_def valid)
  have conns: "connections g' = pruned ?g1"
    using processGraph_related[OF stepsKeep_passFrame[OF pc] pg] by simp
  show "connections g' =
           filter (isConnectionValid (nodes g)) (withoutConn (nat i) (connections g))"
    using conns pr by simp
  show "related passFrame (clearedPins (nodes g) ?conn) (nodes g')"
    using processGraph_related[OF stepsKeep_passFrame[OF pc] pg] by simp
  assume "\<forall>c\<in>set (connections g'). \<not> (inputNode c = X \<and> inputPin c = P)"
  then have "stepsKeep (keepsPin X P) proc (pruned ?g1)"
    using conns by (intro stepsKeep_keepsPin[OF pc]) simp
  from processGraph_related[OF this pg]
  show "related (keepsPin X P) (clearedPins (nodes g) ?conn) (nodes g')" by simp
qed

text \<open>
  C6, as amended. Let \<open>process()\<close> write only its node's output buffers and internal
  state, and let \<open>disconnect\<close> return. For an index in range, the connection list
  afterwards is the old list without that entry, pruned of invalid entries; the input pin
  the entry named, on the node its \<open>inputNode\<close> resolves to, has its \<open>connected\<close> flag
  cleared, and its buffer is empty if no remaining connection names that node and pin as its
  input; the output pin the entry named, on the node its \<open>outputNode\<close> resolves to, has its
  \<open>connected\<close> flag cleared. For an index out of range, \<open>disconnect\<close> returns the editor
  unchanged.
\<close>

theorem disconnect_clears:
  assumes "processContract proc"
  shows "(0 \<le> i \<and> i < int (length (connections g)) \<and> deleteConnection d proc i g = Some g' \<longrightarrow>
           connections g' =
             filter (isConnectionValid (nodes g)) (withoutConn (nat i) (connections g)) \<and>
           (\<forall>k. findNodeById (nodes g) (inputNode (connections g ! nat i)) = Some k \<longrightarrow>
              (\<forall>p\<in>set (inputs (nodes g' ! k)). pin_id p = inputPin (connections g ! nat i) \<longrightarrow>
                 \<not> connected p \<and>
                 ((\<forall>c\<in>set (connections g').
                     \<not> (inputNode c = inputNode (connections g ! nat i) \<and>
                        inputPin c = inputPin (connections g ! nat i))) \<longrightarrow>
                  data p = []))) \<and>
           (\<forall>k. findNodeById (nodes g) (outputNode (connections g ! nat i)) = Some k \<longrightarrow>
              (\<forall>p\<in>set (outputs (nodes g' ! k)). pin_id p = outputPin (connections g ! nat i) \<longrightarrow>
                 \<not> connected p))) \<and>
         (j < 0 \<or> int (length (connections g)) \<le> j \<longrightarrow> deleteConnection d proc j g = Some g)"
proof (intro conjI impI allI ballI)
  assume "j < 0 \<or> int (length (connections g)) \<le> j"
  then show "deleteConnection d proc j g = Some g" by (auto simp: deleteConnection_def)
next
  assume a: "0 \<le> i \<and> i < int (length (connections g)) \<and> deleteConnection d proc i g = Some g'"
  then have i: "0 \<le> i" "i < int (length (connections g))"
    and run: "deleteConnection d proc i g = Some g'" by simp_all
  show "connections g' =
          filter (isConnectionValid (nodes g)) (withoutConn (nat i) (connections g))"
    by (rule deleteConnection_effect(1)[OF assms i run])
next
  fix k p
  let ?conn = "connections g ! nat i"
  let ?cl = "clearedPins (nodes g) ?conn"
  assume a: "0 \<le> i \<and> i < int (length (connections g)) \<and> deleteConnection d proc i g = Some g'"
    and f: "findNodeById (nodes g) (inputNode ?conn) = Some k"
    and p: "p \<in> set (inputs (nodes g' ! k))" "pin_id p = inputPin ?conn"
  from a have i: "0 \<le> i" "i < int (length (connections g))"
    and run: "deleteConnection d proc i g = Some g'" by simp_all
  have k: "k < length ?cl"
    using findNodeById_Some[OF f] clearedPins_ids[of "nodes g" ?conn] by (metis length_map)
  have cleared: "\<forall>q\<in>set (inputs (?cl ! k)). pin_id q = inputPin ?conn \<longrightarrow>
                   data q = [] \<and> \<not> connected q"
    using clearedPins_input[OF f] by blast
  have "passFrame (?cl ! k) (nodes g' ! k)"
    using deleteConnection_effect(2)[OF assms i run] k
    by (simp add: related_def list_all2_conv_all_nth)
  then have shape: "map pinShape (inputs (nodes g' ! k)) = map pinShape (inputs (?cl ! k))"
    by (simp add: passFrame_def)
  show "\<not> connected p"
    using shape_flag[OF shape _ p] cleared by blast
  assume "\<forall>c\<in>set (connections g'). \<not> (inputNode c = inputNode ?conn \<and> inputPin c = inputPin ?conn)"
  from deleteConnection_effect(3)[OF assms i run this] k
  have kp: "keepsPin (inputNode ?conn) (inputPin ?conn) (?cl ! k) (nodes g' ! k)"
    by (simp add: related_def list_all2_conv_all_nth)
  have "node_id (?cl ! k) = inputNode ?conn"
    using findNodeById_Some[OF f] k clearedPins_ids[of "nodes g" ?conn]
    by (metis length_map nth_map)
  with kp have "list_all2 (\<lambda>p q. pin_id p = inputPin ?conn \<longrightarrow> data q = data p)
                  (inputs (?cl ! k)) (inputs (nodes g' ! k))"
    by (simp add: keepsPin_def)
  from kept_data[OF shape this _ p] cleared show "data p = []" by blast
next
  fix k p
  let ?conn = "connections g ! nat i"
  let ?cl = "clearedPins (nodes g) ?conn"
  assume a: "0 \<le> i \<and> i < int (length (connections g)) \<and> deleteConnection d proc i g = Some g'"
    and f: "findNodeById (nodes g) (outputNode ?conn) = Some k"
    and p: "p \<in> set (outputs (nodes g' ! k))" "pin_id p = outputPin ?conn"
  from a have i: "0 \<le> i" "i < int (length (connections g))"
    and run: "deleteConnection d proc i g = Some g'" by simp_all
  have k: "k < length ?cl"
    using findNodeById_Some[OF f] clearedPins_ids[of "nodes g" ?conn] by (metis length_map)
  have cleared: "\<forall>q\<in>set (outputs (?cl ! k)). pin_id q = outputPin ?conn \<longrightarrow> \<not> connected q"
    using clearedPins_output[OF f] by blast
  have "passFrame (?cl ! k) (nodes g' ! k)"
    using deleteConnection_effect(2)[OF assms i run] k
    by (simp add: related_def list_all2_conv_all_nth)
  then have shape: "map pinShape (outputs (nodes g' ! k)) = map pinShape (outputs (?cl ! k))"
    by (simp add: passFrame_def)
  show "\<not> connected p"
    using shape_flag[OF shape _ p] cleared by blast
qed

section \<open>Disconnecting: examples\<close>

lemma demoFanOut_disconnect:
  "deleteConnection 2 demoProc 0 demoFanOut \<noteq> None \<and>
   connections (the (deleteConnection 2 demoProc 0 demoFanOut)) = [demoLink 6 0] \<and>
   map (\<lambda>n. map pin_id (outputs n)) (nodes (the (deleteConnection 2 demoProc 0 demoFanOut)))
     = [[8], [5], [2]] \<and>
   map (\<lambda>n. map connected (outputs n)) (nodes (the (deleteConnection 2 demoProc 0 demoFanOut)))
     = [[False], [False], [False]] \<and>
   map (\<lambda>n. map connected (inputs n)) (nodes (the (deleteConnection 2 demoProc 0 demoFanOut)))
     = [[False], [False], [True]] \<and>
   map (\<lambda>n. map data (inputs n)) (nodes (the (deleteConnection 2 demoProc 0 demoFanOut)))
     = [[[]], [[]], [[1, 2, 3]]]"
  by code_simp

lemma demoFanIn_disconnect:
  "deleteConnection 2 demoProc 0 demoFanIn \<noteq> None \<and>
   map node_id (nodes (the (deleteConnection 2 demoProc 0 demoFanIn))) = [6, 3, 9] \<and>
   map (\<lambda>n. map pin_id (inputs n)) (nodes (the (deleteConnection 2 demoProc 0 demoFanIn)))
     = [[7], [4], [10]] \<and>
   map (\<lambda>n. map data (inputs n)) (nodes (the (deleteConnection 2 demoProc 0 demoFanIn)))
     = [[[]], [[1, 2, 3]], [[]]]"
  by code_simp

theorem disconnect_clears_counterexample:
  "(0::int) \<le> 0 \<and> 0 < int (length (connections demoFanIn)) \<and>
   inputNode (connections demoFanIn ! nat 0) = 3 \<and>
   inputPin (connections demoFanIn ! nat 0) = 4 \<and>
   (\<exists>g'. deleteConnection 2 demoProc 0 demoFanIn = Some g' \<and>
      findNodeById (nodes g') 3 = Some 1 \<and>
      map pin_id (inputs (nodes g' ! 1)) = [4] \<and>
      map data (inputs (nodes g' ! 1)) = [[1, 2, 3]])"
proof -
  obtain g' where g': "deleteConnection 2 demoProc 0 demoFanIn = Some g'"
    using demoFanIn_disconnect by blast
  then have r: "the (deleteConnection 2 demoProc 0 demoFanIn) = g'" by simp
  from demoFanIn_disconnect[unfolded r]
  have ids: "map node_id (nodes g') = [6, 3, 9]"
    and pins: "map (\<lambda>n. map pin_id (inputs n)) (nodes g') = [[7], [4], [10]]"
    and dat: "map (\<lambda>n. map data (inputs n)) (nodes g') = [[[]], [[1, 2, 3]], [[]]]"
    by simp_all
  have f: "findNodeById (nodes g') 3 = Some 1"
    using findNodeById_ids[of "nodes g'" "[demoNode 6 0, demoNode 3 0, demoNode 9 0]" 3] ids
    by (simp add: demoNode_def)
  have len: "length (nodes g') = 3" using ids by (metis length_map length_Cons list.size(3) numeral_3_eq_3)
  have p1: "map pin_id (inputs (nodes g' ! 1)) = [4]"
    using arg_cong[OF pins, of "\<lambda>xs. xs ! 1"] len by simp
  have d1: "map data (inputs (nodes g' ! 1)) = [[1, 2, 3]]"
    using arg_cong[OF dat, of "\<lambda>xs. xs ! 1"] len by simp
  show ?thesis
    using g' f p1 d1 by (simp add: demoFanIn_def demoLink_def)
qed

theorem disconnect_clears_witness:
  "processContract demoProc \<and> (0::int) \<le> 0 \<and> 0 < int (length (connections demoFanOut)) \<and>
   findNodeById (nodes demoFanOut) (inputNode (connections demoFanOut ! nat 0)) = Some 1 \<and>
   (\<exists>g'. deleteConnection 2 demoProc 0 demoFanOut = Some g' \<and>
      connections g' = [demoLink 6 0] \<and>
      map connected (inputs (nodes g' ! 1)) = [False] \<and>
      map data (inputs (nodes g' ! 1)) = [[]] \<and>
      map connected (outputs (nodes g' ! 0)) = [False]) \<and>
   deleteConnection 2 demoProc 2 demoFanOut = Some demoFanOut \<and>
   deleteConnection 2 demoProc (- 1) demoFanOut = Some demoFanOut"
proof -
  obtain g' where g': "deleteConnection 2 demoProc 0 demoFanOut = Some g'"
    using demoFanOut_disconnect by blast
  then have r: "the (deleteConnection 2 demoProc 0 demoFanOut) = g'" by simp
  from demoFanOut_disconnect[unfolded r]
  have pins: "map (\<lambda>n. map pin_id (outputs n)) (nodes g') = [[8], [5], [2]]"
    and co: "map (\<lambda>n. map connected (outputs n)) (nodes g') = [[False], [False], [False]]"
    and ci: "map (\<lambda>n. map connected (inputs n)) (nodes g') = [[False], [False], [True]]"
    and dat: "map (\<lambda>n. map data (inputs n)) (nodes g') = [[[]], [[]], [[1, 2, 3]]]"
    by simp_all
  have len: "length (nodes g') = 3" using pins by (metis length_map length_Cons list.size(3) numeral_3_eq_3)
  have c1: "map connected (inputs (nodes g' ! 1)) = [False]"
    using arg_cong[OF ci, of "\<lambda>xs. xs ! 1"] len by simp
  have d1: "map data (inputs (nodes g' ! 1)) = [[]]"
    using arg_cong[OF dat, of "\<lambda>xs. xs ! 1"] len by simp
  have o0: "map connected (outputs (nodes g' ! 0)) = [False]"
    using arg_cong[OF co, of "\<lambda>xs. xs ! 0"] len by simp
  have len2: "length (connections demoFanOut) = 2" by (simp add: demoFanOut_def)
  note th = disconnect_clears[OF demoProc_contract, of 0 demoFanOut 2 g']
  from th[of 2] len2 have hi: "deleteConnection 2 demoProc 2 demoFanOut = Some demoFanOut" by simp
  from th[of "- 1"] have lo: "deleteConnection 2 demoProc (- 1) demoFanOut = Some demoFanOut" by simp
  from th[of 2] g' len2 have cs: "connections g' =
      filter (isConnectionValid (nodes demoFanOut)) (withoutConn (nat 0) (connections demoFanOut))"
    by simp
  have cs': "connections g' = [demoLink 6 0]"
    unfolding cs by (simp add: demoFanOut_def withoutConn_def isConnectionValid_def demoNode_def demoLink_def)
  have f: "findNodeById (nodes demoFanOut) (inputNode (connections demoFanOut ! nat 0)) = Some 1"
    by (simp add: demoFanOut_def demoNode_def demoLink_def)
  show ?thesis
    using demoProc_contract len2 f g' cs' c1 d1 o0 hi lo by simp
qed

text \<open>
  C10. In the editor \<open>demoFanOut\<close> the two connections leave the same output pin (pin 8 of
  node 6), whose \<open>connected\<close> flag is set. Disconnecting the first of them keeps the second
  in the connection list and leaves that pin's \<open>connected\<close> flag cleared.
\<close>

theorem fan_out_flag_cleared:
  "connections demoFanOut = [demoLink 6 3, demoLink 6 0] \<and>
   outputNode (demoLink 6 3) = outputNode (demoLink 6 0) \<and>
   outputPin (demoLink 6 3) = outputPin (demoLink 6 0) \<and>
   findNodeById (nodes demoFanOut) (outputNode (demoLink 6 0)) = Some 0 \<and>
   map pin_id (outputs (nodes demoFanOut ! 0)) = [outputPin (demoLink 6 0)] \<and>
   map connected (outputs (nodes demoFanOut ! 0)) = [True] \<and>
   (\<exists>g'. deleteConnection 2 demoProc 0 demoFanOut = Some g' \<and>
      connections g' = [demoLink 6 0] \<and>
      map pin_id (outputs (nodes g' ! 0)) = [outputPin (demoLink 6 0)] \<and>
      map connected (outputs (nodes g' ! 0)) = [False])"
proof -
  obtain g' where g': "deleteConnection 2 demoProc 0 demoFanOut = Some g'"
    using demoFanOut_disconnect by blast
  then have r: "the (deleteConnection 2 demoProc 0 demoFanOut) = g'" by simp
  from demoFanOut_disconnect[unfolded r]
  have cs: "connections g' = [demoLink 6 0]"
    and pins: "map (\<lambda>n. map pin_id (outputs n)) (nodes g') = [[8], [5], [2]]"
    and co: "map (\<lambda>n. map connected (outputs n)) (nodes g') = [[False], [False], [False]]"
    by simp_all
  have len: "length (nodes g') = 3" using pins by (metis length_map length_Cons list.size(3) numeral_3_eq_3)
  have p0: "map pin_id (outputs (nodes g' ! 0)) = [8]"
    using arg_cong[OF pins, of "\<lambda>xs. xs ! 0"] len by simp
  have o0: "map connected (outputs (nodes g' ! 0)) = [False]"
    using arg_cong[OF co, of "\<lambda>xs. xs ! 0"] len by simp
  show ?thesis
    using g' cs p0 o0 by (simp add: demoFanOut_def demoLink_def demoNode_def demoPin_def)
qed

section \<open>Validity of connections\<close>












lemma dirty_shape [simp]: "nodeShape (n\<lparr>dirty := b\<rparr>) = nodeShape n"
  by (simp add: nodeShape_def)








section \<open>Buffer hand-off\<close>

text \<open>
  C5. Let the upstream header refer to an allocated buffer or to none, and let the
  hand-off of lines 231--235 turn the store \<open>h\<close> and the input pin's header \<open>dst\<close> into
  \<open>h'\<close> and \<open>dst'\<close>. If the upstream buffer is not empty, the input pin refers to a newly
  allocated buffer with the same samples, and writing any samples into that buffer changes
  the contents of no header that was valid before, the upstream output among them. If the
  upstream buffer is empty, the store and the input pin's header are as before. On
  contents, this is the step \<open>copyPinData\<close> of the pass.
\<close>

theorem handoff_is_deep_copy:
  assumes "refOK h src" and "handOff h src dst = (h', dst')"
  shows "(\<not> matEmpty h src \<longrightarrow>
            dst' = Some (length h) \<and> dst' \<noteq> src \<and> contents h' dst' = contents h src \<and>
            (\<forall>r v. refOK h r \<longrightarrow> contents (matWrite h' (length h) v) r = contents h r)) \<and>
         (matEmpty h src \<longrightarrow> h' = h \<and> dst' = dst) \<and>
         (0 \<le> findPinIndex (outputs outN) (outputPin conn) \<and>
          0 \<le> findPinIndex (inputs n) (inputPin conn) \<and>
          data (outputs outN ! nat (findPinIndex (outputs outN) (outputPin conn))) = contents h src \<and>
          data (inputs n ! nat (findPinIndex (inputs n) (inputPin conn))) = contents h dst \<longrightarrow>
          data (inputs (copyPinData outN conn n) ! nat (findPinIndex (inputs n) (inputPin conn)))
            = contents h' dst')"
proof (intro conjI impI allI)
  assume ne: "\<not> matEmpty h src"
  then obtain a where src: "src = Some a" by (cases src) (auto simp: matEmpty_def contents_def)
  have a: "a < length h" using assms(1) src by (simp add: refOK_def)
  have r: "h' = h @ [h ! a]" "dst' = Some (length h)"
    using assms(2) ne src by (simp_all add: handOff_def matClone_def)
  show "dst' = Some (length h)" by (rule r(2))
  show "dst' \<noteq> src" using r(2) src a by simp
  show "contents h' dst' = contents h src" using r src by (simp add: contents_def)
  fix rf v assume ok: "refOK h rf"
  show "contents (matWrite h' (length h) v) rf = contents h rf"
  proof (cases rf)
    case None
    then show ?thesis by (simp add: contents_def)
  next
    case (Some b)
    then have "b < length h" using ok by (simp add: refOK_def)
    then show ?thesis using Some r(1) by (simp add: contents_def matWrite_def nth_append)
  qed
next
  assume "matEmpty h src"
  then show "h' = h" and "dst' = dst" using assms(2) by (simp_all add: handOff_def)
next
  let ?oi = "findPinIndex (outputs outN) (outputPin conn)"
  let ?ii = "findPinIndex (inputs n) (inputPin conn)"
  assume a: "0 \<le> ?oi \<and> 0 \<le> ?ii \<and> data (outputs outN ! nat ?oi) = contents h src \<and>
          data (inputs n ! nat ?ii) = contents h dst"
  have ii: "nat ?ii < length (inputs n)" using a findPinIndex_found by blast
  show "data (inputs (copyPinData outN conn n) ! nat ?ii) = contents h' dst'"
  proof (cases "matEmpty h src")
    case True
    then have "h' = h" "dst' = dst" using assms(2) by (simp_all add: handOff_def)
    then show ?thesis using a True by (simp add: copyPinData_def Let_def matEmpty_def)
  next
    case False
    then obtain b where src: "src = Some b" by (cases src) (auto simp: matEmpty_def contents_def)
    have "h' = h @ [h ! b]" "dst' = Some (length h)"
      using assms(2) False src by (simp_all add: handOff_def matClone_def)
    then have "contents h' dst' = contents h src" using src by (simp add: contents_def)
    then show ?thesis using a False ii by (simp add: copyPinData_def Let_def matEmpty_def)
  qed
qed

theorem handoff_is_deep_copy_witness:
  "refOK [[1, 2, 3], []] (Some 0) \<and>
   handOff [[1, 2, 3], []] (Some 0) (Some 1) = ([[1, 2, 3], [], [1, 2, 3]], Some 2) \<and>
   \<not> matEmpty [[1, 2, 3], []] (Some 0) \<and>
   contents (matWrite [[1, 2, 3], [], [1, 2, 3]] 2 [7, 7]) (Some 0) = [1, 2, 3] \<and>
   contents (matWrite [[1, 2, 3], [], [1, 2, 3]] 2 [7, 7]) (Some 2) = [7, 7] \<and>
   refOK [[1, 2, 3], []] (Some 1) \<and> matEmpty [[1, 2, 3], []] (Some 1) \<and>
   handOff [[1, 2, 3], []] (Some 1) (Some 0) = ([[1, 2, 3], []], Some 0)"
proof -
  have ok: "refOK [[1, 2, 3], []] (Some 0)" "refOK [[1, 2, 3], []] (Some 1)"
    by (simp_all add: refOK_def)
  have h1: "handOff [[1, 2, 3], []] (Some 0) (Some 1) = ([[1, 2, 3], [], [1, 2, 3]], Some 2)"
    by (simp add: handOff_def matEmpty_def contents_def matClone_def)
  have h2: "handOff [[1, 2, 3], []] (Some 1) (Some 0) = ([[1, 2, 3], []], Some 0)"
    by (simp add: handOff_def matEmpty_def contents_def matClone_def)
  have ne: "\<not> matEmpty [[1, 2, 3], []] (Some 0)" "matEmpty [[1, 2, 3], []] (Some 1)"
    by (simp_all add: matEmpty_def contents_def)
  from handoff_is_deep_copy[OF ok(1) h1] ne(1) ok(1)
  have "contents (matWrite [[1, 2, 3], [], [1, 2, 3]] (length [[1, 2, 3], [] :: nat list]) [7, 7]) (Some 0)
          = contents [[1, 2, 3], []] (Some 0)"
    by blast
  then have w: "contents (matWrite [[1, 2, 3], [], [1, 2, 3]] 2 [7, 7]) (Some 0) = [1, 2, 3]"
    by (simp add: contents_def numeral_2_eq_2)
  have w2: "contents (matWrite [[1, 2, 3], [], [1, 2, 3]] 2 [7, 7]) (Some 2) = [7, 7]"
    by (simp add: contents_def matWrite_def)
  show ?thesis using ok h1 h2 ne w w2 by (intro conjI)
qed

section \<open>Filling inputs as a list of writes\<close>

lemma findPinIndex_ids:
  "map pin_id ps = map pin_id ps' \<Longrightarrow> findPinIndex ps x = findPinIndex ps' x"
proof (induction ps arbitrary: ps')
  case Nil
  then show ?case by simp
next
  case (Cons p ps)
  then obtain q qs where "ps' = q # qs" by (cases ps') auto
  with Cons show ?case by (auto simp: Let_def)
qed

lemma findPinIndex_data:
  assumes "map pin_id ps = map pin_id ps'" "map data ps = map data ps'"
    "0 \<le> findPinIndex ps x"
  shows "data (ps ! nat (findPinIndex ps x)) = data (ps' ! nat (findPinIndex ps' x))"
proof -
  have e: "findPinIndex ps' x = findPinIndex ps x" using findPinIndex_ids[OF assms(1)] by simp
  have i: "nat (findPinIndex ps x) < length ps" using findPinIndex_found[OF assms(3)] by simp
  have len: "length ps' = length ps" using assms(1) by (metis length_map)
  have "map data ps ! nat (findPinIndex ps x) = map data ps' ! nat (findPinIndex ps x)"
    using assms(2) by simp
  then show ?thesis using i len e by simp
qed

lemma writeOf_cong:
  assumes ids: "map node_id ns = map node_id ns'"
    and pins: "map pin_id ps = map pin_id ps'"
    and up: "\<And>u. inputNode c = v \<Longrightarrow> findNodeById ns (outputNode c) = Some u \<Longrightarrow>
               map pin_id (outputs (ns ! u)) = map pin_id (outputs (ns' ! u)) \<and>
               map data (outputs (ns ! u)) = map data (outputs (ns' ! u))"
  shows "writeOf ns v ps c = writeOf ns' v ps' c"
proof (cases "inputNode c = v")
  case False
  then show ?thesis by (simp add: writeOf_def)
next
  case True
  show ?thesis
  proof (cases "findNodeById ns (outputNode c)")
    case None
    then show ?thesis using True findNodeById_ids[OF ids, of "outputNode c"]
      by (simp add: writeOf_def)
  next
    case (Some u)
    have f': "findNodeById ns' (outputNode c) = Some u"
      using Some findNodeById_ids[OF ids, of "outputNode c"] by simp
    have o: "map pin_id (outputs (ns ! u)) = map pin_id (outputs (ns' ! u))"
      "map data (outputs (ns ! u)) = map data (outputs (ns' ! u))"
      using up[OF True Some] by simp_all
    have oi: "findPinIndex (outputs (ns ! u)) (outputPin c) =
              findPinIndex (outputs (ns' ! u)) (outputPin c)"
      using findPinIndex_ids[OF o(1)] .
    have ii: "findPinIndex ps (inputPin c) = findPinIndex ps' (inputPin c)"
      using findPinIndex_ids[OF pins] .
    have d: "0 \<le> findPinIndex (outputs (ns ! u)) (outputPin c) \<Longrightarrow>
             data (outputs (ns ! u) ! nat (findPinIndex (outputs (ns ! u)) (outputPin c))) =
             data (outputs (ns' ! u) ! nat (findPinIndex (outputs (ns' ! u)) (outputPin c)))"
      using findPinIndex_data[OF o] .
    show ?thesis
    proof (cases "0 \<le> findPinIndex (outputs (ns ! u)) (outputPin c)")
      case True': True
      then show ?thesis
        using True Some f' d ii oi unfolding writeOf_def Let_def by simp
    next
      case False
      then show ?thesis
        using True Some f' oi unfolding writeOf_def Let_def by simp
    qed
  qed
qed

lemma lastWrite_cong:
  assumes ids: "map node_id ns = map node_id ns'"
    and pins: "map pin_id ps = map pin_id ps'"
    and up: "\<And>c u. c \<in> set cs \<Longrightarrow> inputNode c = v \<Longrightarrow>
               findNodeById ns (outputNode c) = Some u \<Longrightarrow>
               map pin_id (outputs (ns ! u)) = map pin_id (outputs (ns' ! u)) \<and>
               map data (outputs (ns ! u)) = map data (outputs (ns' ! u))"
  shows "lastWrite ns v ps cs i = lastWrite ns' v ps' cs i"
proof -
  have "\<And>c. c \<in> set cs \<Longrightarrow> writeOf ns v ps c = writeOf ns' v ps' c"
    using writeOf_cong[OF ids pins] up by blast
  then have "\<And>acc. foldl (\<lambda>acc c. case writeOf ns v ps c of
                       None \<Rightarrow> acc
                     | Some (j, d) \<Rightarrow> if j = i then Some d else acc) acc cs =
        foldl (\<lambda>acc c. case writeOf ns' v ps' c of
                       None \<Rightarrow> acc
                     | Some (j, d) \<Rightarrow> if j = i then Some d else acc) acc cs"
  proof (induction cs)
    case Nil
    show ?case by simp
  next
    case (Cons c cs)
    then show ?case by simp
  qed
  then show ?thesis by (simp add: lastWrite_def)
qed

lemma fillStep_inputs:
  "inputs (fillStep ns n c) =
     (case writeOf ns (node_id n) (inputs n) c of
        None \<Rightarrow> inputs n
      | Some (i, d) \<Rightarrow> (inputs n)[i := (inputs n ! i)\<lparr>data := d\<rparr>])"
  by (auto simp: fillStep_def writeOf_def copyPinData_def Let_def split: option.splits)

lemma pin_id_update:
  "pin_id x = pin_id (ps ! i) \<Longrightarrow> map pin_id (ps[i := x]) = map pin_id ps"
  by (metis list_update_id map_update)

lemma fillStep_rest:
  "vstate (fillStep ns n c) = vstate n \<and> outputs (fillStep ns n c) = outputs n \<and>
   map pin_id (inputs (fillStep ns n c)) = map pin_id (inputs n)"
proof -
  have "map pin_id ((inputs n)[i := (inputs n ! i)\<lparr>data := d\<rparr>]) = map pin_id (inputs n)" for i d
    by (rule pin_id_update) simp
  then show ?thesis
    by (auto simp: fillStep_def copyPinData_def Let_def split: option.splits)
qed

lemma fillInputs_rest:
  "vstate (fillInputs ns cs n) = vstate n \<and> outputs (fillInputs ns cs n) = outputs n \<and>
   map pin_id (inputs (fillInputs ns cs n)) = map pin_id (inputs n)"
proof (induction cs rule: rev_induct)
  case Nil
  show ?case by (simp add: fillInputs_def)
next
  case (snoc c cs)
  then show ?case using fillStep_rest[of ns "fillInputs ns cs n" c]
    by (simp add: fillInputs_snoc)
qed

lemma fillInputs_nth:
  "i < length (inputs n) \<Longrightarrow>
   inputs (fillInputs ns cs n) ! i =
     (case lastWrite ns (node_id n) (inputs n) cs i of
        None \<Rightarrow> inputs n ! i
      | Some d \<Rightarrow> (inputs n ! i)\<lparr>data := d\<rparr>)"
proof (induction cs rule: rev_induct)
  case Nil
  show ?case by (simp add: fillInputs_def lastWrite_def)
next
  case (snoc c cs)
  let ?m = "fillInputs ns cs n"
  have pins: "map pin_id (inputs ?m) = map pin_id (inputs n)" using fillInputs_rest by blast
  have len: "length (inputs ?m) = length (inputs n)" using pins by (metis length_map)
  have "writeOf ns (node_id n) (inputs ?m) c = writeOf ns (node_id n) (inputs n) c"
    by (rule writeOf_cong) (simp_all add: pins)
  then have w: "writeOf ns (node_id ?m) (inputs ?m) c = writeOf ns (node_id n) (inputs n) c"
    by simp
  have lw: "lastWrite ns (node_id n) (inputs n) (cs @ [c]) i =
        (case writeOf ns (node_id n) (inputs n) c of
           None \<Rightarrow> lastWrite ns (node_id n) (inputs n) cs i
         | Some (j, d) \<Rightarrow> if j = i then Some d else lastWrite ns (node_id n) (inputs n) cs i)"
    unfolding lastWrite_def by simp
  show ?case
  proof (cases "writeOf ns (node_id n) (inputs n) c")
    case None
    then show ?thesis using snoc w by (simp add: fillInputs_snoc fillStep_inputs lw)
  next
    case (Some jd)
    obtain j d where jd: "jd = (j, d)" by (cases jd)
    show ?thesis
    proof (cases "j = i")
      case True
      then show ?thesis
        using snoc Some jd w len
        by (simp add: fillInputs_snoc fillStep_inputs lw split: option.splits)
    next
      case False
      then show ?thesis
        using snoc Some jd w
        by (simp add: fillInputs_snoc fillStep_inputs lw)
    qed
  qed
qed

section \<open>A second pass\<close>

lemma contract_output_ids:
  assumes "processContract proc"
  shows "map pin_id (outputs (proc n)) = map pin_id (outputs n)"
proof -
  have "map pin_id (outputs (proc n)) = map (fst \<circ> pinShape) (outputs (proc n))"
    by (simp add: pinShape_def o_def)
  also have "\<dots> = map fst (map pinShape (outputs n))"
    using assms by (simp add: processContract_def flip: map_map)
  also have "\<dots> = map pin_id (outputs n)" by (simp add: pinShape_def o_def)
  finally show ?thesis .
qed

lemma second_pass_same:
  assumes det: "deterministic proc"
    and ac: "acyclic (edges C)"
    and ids1: "map node_id ns1 = map node_id ns0" and ids2: "map node_id ns2 = map node_id ns0"
    and H1: "\<And>k. k < length ns0 \<Longrightarrow> ns1 ! k = proc (fillInputs ns1 C (ns0 ! k))"
    and H2: "\<And>k. k < length ns0 \<Longrightarrow> ns2 ! k = proc (fillInputs ns2 C (ns1 ! k))"
  shows "k < length ns0 \<Longrightarrow>
         map data (outputs (ns2 ! k)) = map data (outputs (ns1 ! k)) \<and>
         inputs (ns2 ! k) = inputs (ns1 ! k)"
proof -
  have pc: "processContract proc" and keep: "\<And>n. vstate (proc n) = vstate n"
    and fn: "\<And>n m. vstate n = vstate m \<Longrightarrow> map data (inputs n) = map data (inputs m) \<Longrightarrow>
               length (outputs n) = length (outputs m) \<Longrightarrow>
               map data (outputs (proc n)) = map data (outputs (proc m))"
    using det unfolding deterministic_def by blast+
  have pin: "\<And>n. inputs (proc n) = inputs n" using pc by (simp add: processContract_def)
  have len1: "length ns1 = length ns0"
    using arg_cong[OF ids1, of length] by simp
  have len2: "length ns2 = length ns0"
    using arg_cong[OF ids2, of length] by simp
  have oids2: "map pin_id (outputs (ns2 ! k)) = map pin_id (outputs (ns1 ! k))"
    if k: "k < length ns0" for k
  proof -
    have "outputs (fillInputs ns2 C (ns1 ! k)) = outputs (ns1 ! k)"
      using fillInputs_rest by blast
    then show ?thesis
      using H2[OF k] contract_output_ids[OF pc, of "fillInputs ns2 C (ns1 ! k)"] by simp
  qed
  have wf: "wf (edges C)" using finite_edges ac by (rule finite_acyclic_wf)
  have main: "\<forall>k<length ns0. node_id (ns0 ! k) = v \<longrightarrow>
         map data (outputs (ns2 ! k)) = map data (outputs (ns1 ! k)) \<and>
         inputs (ns2 ! k) = inputs (ns1 ! k)" for v
    using wf
  proof (induction v rule: wf_induct_rule)
    case (less v)
    show ?case
    proof (intro allI impI)
      fix k assume k: "k < length ns0" and idk: "node_id (ns0 ! k) = v"
      let ?n0 = "ns0 ! k"
      let ?m1 = "fillInputs ns1 C ?n0"
      let ?m2 = "fillInputs ns2 C (ns1 ! k)"
      have n1: "ns1 ! k = proc ?m1" using H1[OF k] .
      have n2: "ns2 ! k = proc ?m2" using H2[OF k] .
      have "map node_id ns1 ! k = map node_id ns0 ! k" using ids1 by simp
      then have id1: "node_id (ns1 ! k) = v"
        using k len1 idk by simp
      have in1: "inputs (ns1 ! k) = inputs ?m1" using n1 pin by simp
      have pins1: "map pin_id (inputs ?m1) = map pin_id (inputs ?n0)"
        using fillInputs_rest by blast
      have leq: "length (inputs ?m1) = length (inputs ?n0)"
        using arg_cong[OF pins1, of length] by simp
      have "map pin_id (inputs ?m2) = map pin_id (inputs (ns1 ! k))"
        using fillInputs_rest by blast
      then have pins2: "map pin_id (inputs ?m2) = map pin_id (inputs ?m1)"
        by (simp only: in1)
      have leq2: "length (inputs ?m2) = length (inputs ?m1)"
        using arg_cong[OF pins2, of length] by simp
      have lw: "lastWrite ns2 v (inputs (ns1 ! k)) C i = lastWrite ns1 v (inputs ?n0) C i" for i
      proof (rule lastWrite_cong)
        show "map node_id ns2 = map node_id ns1" using ids1 ids2 by simp
        show "map pin_id (inputs (ns1 ! k)) = map pin_id (inputs ?n0)" using in1 pins1 by simp
      next
        fix c u
        assume c: "c \<in> set C" and ic: "inputNode c = v"
          and f: "findNodeById ns2 (outputNode c) = Some u"
        have f0: "findNodeById ns0 (outputNode c) = Some u"
          using f findNodeById_ids[OF ids2] by simp
        have u: "u < length ns0" and idu: "node_id (ns0 ! u) = outputNode c"
          using findNodeById_Some[OF f0] by simp_all
        have "(outputNode c, v) \<in> edges C" using c ic by (force simp: edges_def)
        from less.IH[OF this] u idu
        have "map data (outputs (ns2 ! u)) = map data (outputs (ns1 ! u))" by simp
        then show "map pin_id (outputs (ns2 ! u)) = map pin_id (outputs (ns1 ! u)) \<and>
                   map data (outputs (ns2 ! u)) = map data (outputs (ns1 ! u))"
          using oids2[OF u] by simp
      qed
      have eqi: "inputs ?m2 = inputs ?m1"
      proof (rule nth_equalityI)
        show "length (inputs ?m2) = length (inputs ?m1)" by (rule leq2)
      next
        fix i assume "i < length (inputs ?m2)"
        then have i: "i < length (inputs ?n0)" "i < length (inputs (ns1 ! k))"
          using leq leq2 in1 by simp_all
        have a: "inputs ?m1 ! i =
           (case lastWrite ns1 v (inputs ?n0) C i of
              None \<Rightarrow> inputs ?n0 ! i
            | Some d \<Rightarrow> (inputs ?n0 ! i)\<lparr>data := d\<rparr>)"
          using fillInputs_nth[OF i(1), of ns1 C] idk by simp
        have b: "inputs ?m2 ! i =
           (case lastWrite ns2 v (inputs (ns1 ! k)) C i of
              None \<Rightarrow> inputs (ns1 ! k) ! i
            | Some d \<Rightarrow> (inputs (ns1 ! k) ! i)\<lparr>data := d\<rparr>)"
          using fillInputs_nth[OF i(2), of ns2 C] id1 by simp
        show "inputs ?m2 ! i = inputs ?m1 ! i"
        proof (cases "lastWrite ns1 v (inputs ?n0) C i")
          case None
          then have "inputs ?m2 ! i = inputs (ns1 ! k) ! i" using b lw[of i] by simp
          then show ?thesis using in1 by simp
        next
          case (Some d)
          then have "inputs ?m2 ! i = (inputs (ns1 ! k) ! i)\<lparr>data := d\<rparr>"
            using b lw[of i] by simp
          moreover have "inputs ?m1 ! i = (inputs ?n0 ! i)\<lparr>data := d\<rparr>"
            using a Some by simp
          ultimately show ?thesis using in1 by simp
        qed
      qed
      have eqv: "vstate ?m2 = vstate ?m1"
      proof -
        have "vstate ?m2 = vstate (ns1 ! k)" using fillInputs_rest by blast
        also have "\<dots> = vstate ?m1" by (simp only: n1 keep)
        finally show ?thesis .
      qed
      have "outputs ?m2 = outputs (proc ?m1)"
        using fillInputs_rest[of ns2 C "ns1 ! k"] by (simp only: n1)
      then have "map pin_id (outputs ?m2) = map pin_id (outputs ?m1)"
        by (simp only: contract_output_ids[OF pc])
      then have eql: "length (outputs ?m2) = length (outputs ?m1)"
        by (rule map_eq_imp_length_eq)
      have "map data (outputs (proc ?m2)) = map data (outputs (proc ?m1))"
        by (rule fn) (simp_all only: eqi eqv eql)
      moreover have "inputs (proc ?m2) = inputs (proc ?m1)"
        by (simp only: pin eqi)
      ultimately show "map data (outputs (ns2 ! k)) = map data (outputs (ns1 ! k)) \<and>
         inputs (ns2 ! k) = inputs (ns1 ! k)"
        by (simp only: n1 n2)
    qed
  qed
  assume "k < length ns0"
  then show ?thesis using main by blast
qed

lemma processGraph_runPass:
  assumes "processGraph d proc g = Some g'"
  shows "\<exists>order. runPass d proc g = Some (nodes g', order) \<and> connections g' = pruned g"
  using assms by (auto simp: processGraph_def split: option.splits)

lemma pruned_again:
  assumes "map node_id (nodes g1) = map node_id (nodes g)" "connections g1 = pruned g"
  shows "pruned g1 = pruned g"
proof -
  have "isConnectionValid (nodes g1) = isConnectionValid (nodes g)"
    using findNodeById_ids[OF assms(1)] by (auto simp: isConnectionValid_def fun_eq_iff)
  then show ?thesis using assms(2) by (simp add: pruned_def)
qed

section \<open>Re-evaluation\<close>

lemma demoProc_deterministic: "deterministic demoProc"
  unfolding deterministic_def
proof (intro conjI allI impI)
  show "processContract demoProc" by (rule demoProc_contract)
  show "\<And>n. vstate (demoProc n) = vstate n" by (simp add: demoProc_def)
  fix n m :: "nat BaseNode"
  assume a: "vstate n = vstate m \<and> map data (inputs n) = map data (inputs m) \<and>
             length (outputs n) = length (outputs m)"
  have "map data (outputs (demoProc x)) =
          replicate (length (outputs x))
            (if vstate x = 0 then [1, 2, 3]
             else map (\<lambda>y. vstate x * y) (concat (map data (inputs x))))" for x :: "nat BaseNode"
    by (simp add: demoProc_def o_def map_replicate_const)
  then show "map data (outputs (demoProc n)) = map data (outputs (demoProc m))"
    using a by simp
qed

lemma demoChain_twice:
  "processGraph 3 demoProc demoChain \<noteq> None \<and>
   processGraph 3 demoProc (the (processGraph 3 demoProc demoChain)) \<noteq> None \<and>
   map (\<lambda>n. map data (outputs n)) (nodes (the (processGraph 3 demoProc demoChain))) =
     [[[6, 12, 18]], [[2, 4, 6]], [[1, 2, 3]]]"
  by code_simp

text \<open>
  C8. Let \<open>process()\<close> be a deterministic function of the input buffers and the parameters
  (it keeps to its contract, does not change the parameters, and the output buffers it
  writes depend only on the parameters and the input buffers), and let the connections be
  acyclic. If a pass returns and a second pass on its result returns, every node has the
  same output buffers after the second pass as after the first; its input pins and the
  connection list are the same as well.
\<close>

theorem reevaluation_idempotent:
  assumes "deterministic proc" and "acyclic (edges (connections g))"
    and "processGraph d proc g = Some g1" and "processGraph d' proc g1 = Some g2"
  shows "map (\<lambda>n. map data (outputs n)) (nodes g2) = map (\<lambda>n. map data (outputs n)) (nodes g1) \<and>
         map inputs (nodes g2) = map inputs (nodes g1) \<and>
         connections g2 = connections g1"
proof -
  have pc: "processContract proc" using assms(1) by (simp add: deterministic_def)
  have pid: "preservesId proc" using pc by (rule processContract_preservesId)
  have ac: "acyclic (edges (pruned g))" using assms(2) by (rule acyclic_pruned)
  obtain o1 where r1: "runPass d proc g = Some (nodes g1, o1)" and c1: "connections g1 = pruned g"
    using processGraph_runPass[OF assms(3)] by blast
  obtain o2 where r2: "runPass d' proc g1 = Some (nodes g2, o2)" and c2: "connections g2 = pruned g1"
    using processGraph_runPass[OF assms(4)] by blast
  have i1: "passInv (nodes g) (pruned g) proc (nodes g1, o1)" and s1: "set o1 = {..<length (nodes g)}"
    using runPass_result[OF ac pid r1] by simp_all
  have ids1: "map node_id (nodes g1) = map node_id (nodes g)"
    using i1 by (rule passInv_ids)
  have len1: "length (nodes g1) = length (nodes g)" using i1 by (rule passInv_length)
  have p1: "pruned g1 = pruned g" using pruned_again[OF ids1 c1] .
  have ac1: "acyclic (edges (pruned g1))" using ac p1 by simp
  have i2: "passInv (nodes g1) (pruned g) proc (nodes g2, o2)" and s2: "set o2 = {..<length (nodes g1)}"
    using runPass_result[OF ac1 pid r2] p1 by simp_all
  have ids2: "map node_id (nodes g2) = map node_id (nodes g)"
    using passInv_ids[OF i2] ids1 by simp
  have len2: "length (nodes g2) = length (nodes g)" using passInv_length[OF i2] len1 by simp
  have H1: "\<And>k. k < length (nodes g) \<Longrightarrow>
              nodes g1 ! k = proc (fillInputs (nodes g1) (pruned g) (nodes g ! k))"
    using i1 s1 by (simp add: passInv_def)
  have H2: "\<And>k. k < length (nodes g) \<Longrightarrow>
              nodes g2 ! k = proc (fillInputs (nodes g2) (pruned g) (nodes g1 ! k))"
    using i2 s2 len1 by (simp add: passInv_def)
  note same = second_pass_same[OF assms(1) ac ids1 ids2 H1 H2]
  have "map (\<lambda>n. map data (outputs n)) (nodes g2) = map (\<lambda>n. map data (outputs n)) (nodes g1)"
    using same len1 len2 by (intro nth_equalityI) simp_all
  moreover have "map inputs (nodes g2) = map inputs (nodes g1)"
    using same len1 len2 by (intro nth_equalityI) simp_all
  ultimately show ?thesis using c1 c2 p1 by simp
qed

theorem reevaluation_idempotent_witness:
  "deterministic demoProc \<and> acyclic (edges (connections demoChain)) \<and>
   (\<exists>g1 g2. processGraph 3 demoProc demoChain = Some g1 \<and>
      processGraph 3 demoProc g1 = Some g2 \<and>
      map (\<lambda>n. map data (outputs n)) (nodes g1) = [[[6, 12, 18]], [[2, 4, 6]], [[1, 2, 3]]] \<and>
      map (\<lambda>n. map data (outputs n)) (nodes g2) = [[[6, 12, 18]], [[2, 4, 6]], [[1, 2, 3]]])"
proof -
  obtain g1 where g1: "processGraph 3 demoProc demoChain = Some g1"
    using demoChain_twice by blast
  then have e1: "the (processGraph 3 demoProc demoChain) = g1" by simp
  obtain g2 where g2: "processGraph 3 demoProc g1 = Some g2"
    using demoChain_twice[unfolded e1] by blast
  have o1: "map (\<lambda>n. map data (outputs n)) (nodes g1) = [[[6, 12, 18]], [[2, 4, 6]], [[1, 2, 3]]]"
    using demoChain_twice[unfolded e1] by simp
  from reevaluation_idempotent[OF demoProc_deterministic demoChain_acyclic g1 g2] o1
  have o2: "map (\<lambda>n. map data (outputs n)) (nodes g2) = [[[6, 12, 18]], [[2, 4, 6]], [[1, 2, 3]]]"
    by simp
  show ?thesis
    using demoProc_deterministic demoChain_acyclic g1 g2 o1 o2
    by (intro conjI exI[of _ g1] exI[of _ g2])
qed

section \<open>Identifier allocation\<close>












section \<open>Unique identifiers\<close>













section \<open>Validity of connections under editing\<close>











section \<open>Connections after the counter has wrapped\<close>













end
